theory Spec2Isabelle
  imports Main "HOL-Library.Multiset"
begin

section \<open>Stabilizer terms (class Stabilizer)\<close>

text \<open>
  The values a \<^verbatim>\<open>qubits_ops\<close> dictionary holds: the strings \<^verbatim>\<open>'X'\<close>, \<^verbatim>\<open>'Z'\<close>, \<^verbatim>\<open>'Y'\<close>, and
  Python's \<^verbatim>\<open>None\<close>, which \<^verbatim>\<open>get_measurement_type\<close> returns for a pair that is not adjacent.
  The identity \<^verbatim>\<open>'I'\<close> is never stored: it is the default of \<^verbatim>\<open>dict.get\<close> for an absent key.
\<close>

datatype symbol = X | Z | Y | NoneSym

datatype error = IndexError | ValueError

text \<open>
  A Python dictionary keeps its keys in insertion order, and \<^verbatim>\<open>list(d.values())[0]\<close> reads
  that order: \<^verbatim>\<open>qubits_ops\<close> is an association list with distinct keys, oldest key first.
\<close>

type_synonym stabilizer = "(int \<times> symbol) list"

definition wf_dict :: "stabilizer \<Rightarrow> bool" where
  "wf_dict d = distinct (map fst d)"

definition dict_get :: "stabilizer \<Rightarrow> int \<Rightarrow> symbol option" where
  "dict_get d q = map_of d q"

text \<open>\<^verbatim>\<open>del d[q]\<close>: the other keys keep their order.\<close>

definition dict_del :: "stabilizer \<Rightarrow> int \<Rightarrow> stabilizer" where
  "dict_del d q = filter (\<lambda>kv. fst kv \<noteq> q) d"

text \<open>\<^verbatim>\<open>d[q] = v\<close>: a key already present keeps its place, a new key goes last.\<close>

fun dict_set :: "stabilizer \<Rightarrow> int \<Rightarrow> symbol \<Rightarrow> stabilizer" where
  "dict_set [] q v = [(q, v)]"
| "dict_set ((k, w) # d) q v = (if k = q then (k, v) # d else (k, w) # dict_set d q v)"

text \<open>
  \<^verbatim>\<open>commutes_with\<close>: the measurement is the list of its qubits and its type;
  \<^verbatim>\<open>self.qubits_ops.get(q, 'I')\<close> is \<open>None\<close> for the identity.
\<close>

type_synonym measurement = "int list \<times> symbol"

definition anti_commuting_at :: "stabilizer \<Rightarrow> symbol \<Rightarrow> int \<Rightarrow> bool" where
  "anti_commuting_at s op_meas q =
     (case dict_get s q of None \<Rightarrow> False | Some op_stab \<Rightarrow> op_stab \<noteq> op_meas)"

definition commutes_with :: "stabilizer \<Rightarrow> measurement \<Rightarrow> bool" where
  "commutes_with s m =
     (fold (\<lambda>q n. if anti_commuting_at s (snd m) q then n + 1 else n) (fst m) (0::nat) mod 2 = 0)"

text \<open>\<^verbatim>\<open>multiply\<close>: the loop over \<^verbatim>\<open>other.qubits_ops.items()\<close>, on a copy of \<^verbatim>\<open>self.qubits_ops\<close>.\<close>

definition multiply_step :: "int \<times> symbol \<Rightarrow> stabilizer \<Rightarrow> stabilizer" where
  "multiply_step qop new_qubits_ops =
     (case dict_get new_qubits_ops (fst qop) of
        Some v \<Rightarrow> if v = snd qop then dict_del new_qubits_ops (fst qop)
                  else dict_set new_qubits_ops (fst qop) Y
      | None \<Rightarrow> dict_set new_qubits_ops (fst qop) (snd qop))"

definition multiply :: "stabilizer \<Rightarrow> stabilizer \<Rightarrow> stabilizer" where
  "multiply s other = fold multiply_step other s"

definition is_trivial :: "stabilizer \<Rightarrow> bool" where
  "is_trivial s = (length s = 0)"

text \<open>
  \<^verbatim>\<open>__eq__\<close> compares the two dictionaries: the same number of keys, and every key of the
  one bound to the same value in the other. The order of the keys plays no role.
\<close>

definition stab_eq :: "stabilizer \<Rightarrow> stabilizer \<Rightarrow> bool" where
  "stab_eq s t = (length s = length t \<and> list_all (\<lambda>kv. dict_get t (fst kv) = Some (snd kv)) s)"

section \<open>Sets of stabilizers\<close>

text \<open>
  \<^verbatim>\<open>stabilizer_generators\<close>, \<^verbatim>\<open>new_stabilizers\<close> and \<^verbatim>\<open>simplified_stabilizers\<close> are Python sets
  of \<^verbatim>\<open>Stabilizer\<close> objects, compared by \<^verbatim>\<open>__eq__\<close>. A set is the list of its members, no two
  of them equal, in the order they were added. Python does not iterate a set in that
  order: it follows the hash table. The order of iteration is therefore a parameter
  \<open>ord\<close> of every function that runs a loop over a set: the loop visits \<open>ord S\<close>.
\<close>

type_synonym stab_set = "stabilizer list"

type_synonym set_order = "stab_set \<Rightarrow> stabilizer list"

definition set_contains :: "stab_set \<Rightarrow> stabilizer \<Rightarrow> bool" where
  "set_contains S x = list_ex (\<lambda>y. stab_eq y x) S"

definition set_add :: "stabilizer \<Rightarrow> stab_set \<Rightarrow> stab_set" where
  "set_add x S = (if set_contains S x then S else S @ [x])"

definition set_discard :: "stabilizer \<Rightarrow> stab_set \<Rightarrow> stab_set" where
  "set_discard x S = filter (\<lambda>y. \<not> stab_eq y x) S"

text \<open>\<^verbatim>\<open>S |= T\<close> adds the members of \<^verbatim>\<open>T\<close> one by one.\<close>

definition set_union_update :: "set_order \<Rightarrow> stab_set \<Rightarrow> stab_set \<Rightarrow> stab_set" where
  "set_union_update ord S T = fold set_add (ord T) S"

text \<open>\<^verbatim>\<open>list.remove(x)\<close> drops the first item equal to \<^verbatim>\<open>x\<close> and raises ValueError without one.\<close>

fun list_remove :: "stabilizer \<Rightarrow> stabilizer list \<Rightarrow> error + stabilizer list" where
  "list_remove x [] = Inl ValueError"
| "list_remove x (y # ys) =
     (if stab_eq y x then Inr ys
      else (case list_remove x ys of Inl e \<Rightarrow> Inl e | Inr zs \<Rightarrow> Inr (y # zs)))"

text \<open>An order of iteration visits every member once, and nothing else.\<close>

definition order_ok :: "set_order \<Rightarrow> bool" where
  "order_ok ord = (\<forall>S. mset (ord S) = mset S)"

definition storage_order :: set_order where
  "storage_order S = S"

text \<open>
  An order that follows a hash, as a hash table does: the members are visited by the
  bucket \<open>h mod 7\<close> of the hash \<open>h\<close>, here the sum of the qubit ids, and within a bucket in
  the order they were added.
\<close>

definition bucket_order :: set_order where
  "bucket_order S = sort_key (\<lambda>s. nat (sum_list (map fst s)) mod 7) S"

section \<open>The lattice (class BaconShorCode)\<close>

record bacon_shor_code =
  rows :: nat
  cols :: nat
  stabilizer_generators :: stab_set
  time_step :: nat
  prev_measurements :: "(int \<times> int) list"
  current_measurements :: "(int \<times> int) list"
  measurements_history :: "(int \<times> int) list list"
  selected_edges :: "(int \<times> int) list"

definition init :: "nat \<Rightarrow> nat \<Rightarrow> bacon_shor_code" where
  "init r c = \<lparr>rows = r, cols = c, stabilizer_generators = [], time_step = 0,
     prev_measurements = [], current_measurements = [], measurements_history = [], selected_edges = []\<rparr>"

definition num_qubits :: "bacon_shor_code \<Rightarrow> nat" where
  "num_qubits c = (rows c + 1) * (cols c + 1)"

text \<open>
  \<^verbatim>\<open>np.argwhere(self.grid == q)\<close>, where the grid holds \<open>1 .. num_qubits\<close> row by row in
  \<open>rows + 1\<close> rows of \<open>cols + 1\<close> entries: the coordinates of \<open>q\<close>, or no row at all.
\<close>

definition argwhere :: "bacon_shor_code \<Rightarrow> int \<Rightarrow> (nat \<times> nat) list" where
  "argwhere c q =
     (if 1 \<le> q \<and> q \<le> int (num_qubits c)
      then [(nat (q - 1) div (cols c + 1), nat (q - 1) mod (cols c + 1))]
      else [])"

definition is_valid_measurement :: "bacon_shor_code \<Rightarrow> int \<times> int \<Rightarrow> bool \<times> string" where
  "is_valid_measurement c qubit_pair =
     (case (argwhere c (fst qubit_pair), argwhere c (snd qubit_pair)) of
        (pos1 # _, pos2 # _) \<Rightarrow>
          (let row_diff = \<bar>int (fst pos1) - int (fst pos2)\<bar>;
               col_diff = \<bar>int (snd pos1) - int (snd pos2)\<bar>
           in if (row_diff = 1 \<and> col_diff = 0) \<or> (row_diff = 0 \<and> col_diff = 1)
              then (True, [])
              else (False, ''Qubits are not adjacent.''))
      | _ \<Rightarrow> (False, ''Qubit does not exist in the grid.''))"

text \<open>\<^verbatim>\<open>np.argwhere(...)[0]\<close> raises IndexError for an id that is not in the grid.\<close>

definition get_measurement_type :: "bacon_shor_code \<Rightarrow> int \<times> int \<Rightarrow> error + symbol" where
  "get_measurement_type c qubit_pair =
     (case argwhere c (fst qubit_pair) of
        [] \<Rightarrow> Inl IndexError
      | pos1 # _ \<Rightarrow>
          (case argwhere c (snd qubit_pair) of
             [] \<Rightarrow> Inl IndexError
           | pos2 # _ \<Rightarrow>
               if \<bar>int (fst pos1) - int (fst pos2)\<bar> = 1 \<and> snd pos1 = snd pos2 then Inr X
               else if \<bar>int (snd pos1) - int (snd pos2)\<bar> = 1 \<and> fst pos1 = fst pos2 then Inr Z
               else Inr NoneSym))"

definition get_qubit_position :: "bacon_shor_code \<Rightarrow> int \<Rightarrow> error + nat \<times> nat" where
  "get_qubit_position c qubit =
     (case argwhere c qubit of [] \<Rightarrow> Inl ValueError | pos # _ \<Rightarrow> Inr pos)"

text \<open>The ids the grid holds, and where it holds them (row by row, from 1).\<close>

definition in_grid :: "bacon_shor_code \<Rightarrow> int \<Rightarrow> bool" where
  "in_grid c q = (1 \<le> q \<and> q \<le> int ((rows c + 1) * (cols c + 1)))"

definition row_of :: "bacon_shor_code \<Rightarrow> int \<Rightarrow> nat" where
  "row_of c q = nat (q - 1) div (cols c + 1)"

definition col_of :: "bacon_shor_code \<Rightarrow> int \<Rightarrow> nat" where
  "col_of c q = nat (q - 1) mod (cols c + 1)"

definition manhattan :: "bacon_shor_code \<Rightarrow> int \<Rightarrow> int \<Rightarrow> int" where
  "manhattan c a b =
     \<bar>int (row_of c a) - int (row_of c b)\<bar> + \<bar>int (col_of c a) - int (col_of c b)\<bar>"

section \<open>Simplification\<close>

text \<open>
  \<^verbatim>\<open>simplify_stabilizers\<close>: \<^verbatim>\<open>sorted\<close> is stable, as \<open>sort_key\<close> is; the inner loop visits the
  set \<^verbatim>\<open>simplified_stabilizers\<close> and rebinds \<^verbatim>\<open>stab\<close> as it goes.
\<close>

definition reduce_by :: "stabilizer \<Rightarrow> stabilizer \<Rightarrow> stabilizer" where
  "reduce_by simple_stab stab =
     (if set simple_stab \<subseteq> set stab then multiply stab simple_stab else stab)"

definition simplify_step :: "set_order \<Rightarrow> stabilizer \<Rightarrow> stab_set \<Rightarrow> stab_set" where
  "simplify_step ord stab simplified_stabilizers =
     (let stab' = fold reduce_by (ord simplified_stabilizers) stab
      in if \<not> is_trivial stab' then set_add stab' simplified_stabilizers
         else simplified_stabilizers)"

definition simplify_stabilizers :: "set_order \<Rightarrow> stab_set \<Rightarrow> stab_set" where
  "simplify_stabilizers ord gens = fold (simplify_step ord) (sort_key length (ord gens)) []"

section \<open>Resolving anti-commutation\<close>

text \<open>\<^verbatim>\<open>list(d.values())[0]\<close> raises IndexError on an empty dictionary.\<close>

definition first_value :: "stabilizer \<Rightarrow> error + symbol" where
  "first_value s = (case s of [] \<Rightarrow> Inl IndexError | kv # _ \<Rightarrow> Inr (snd kv))"

text \<open>
  The dictionary \<^verbatim>\<open>{'qubits': list(meas_stab.qubits_ops.keys()),
  'type': list(meas_stab.qubits_ops.values())[0]}\<close>.
\<close>

definition measurement_of :: "stabilizer \<Rightarrow> error + measurement" where
  "measurement_of meas_stab =
     (case first_value meas_stab of Inl e \<Rightarrow> Inl e | Inr t \<Rightarrow> Inr (map fst meas_stab, t))"

text \<open>
  The list comprehension that collects the generators anti-commuting with the measurement:
  its condition builds the measurement for every generator it visits, so an empty
  \<^verbatim>\<open>meas_stab\<close> raises only when there is a generator to visit.
\<close>

definition anti_commuting_stabs ::
  "set_order \<Rightarrow> stabilizer \<Rightarrow> stab_set \<Rightarrow> error + stabilizer list" where
  "anti_commuting_stabs ord meas_stab gens =
     (if ord gens = [] then Inr []
      else (case measurement_of meas_stab of
              Inl e \<Rightarrow> Inl e
            | Inr m \<Rightarrow> Inr (filter (\<lambda>stab. \<not> commutes_with stab m \<and> \<not> stab_eq stab meas_stab)
                            (ord gens))))"

text \<open>
  \<^verbatim>\<open>{self.get_qubit_position(q)[k] for q in stab.qubits_ops}\<close>: the rows (\<open>k = 0\<close>) or the
  columns (\<open>k = 1\<close>) of a stabilizer's qubits; ValueError at the first qubit off the grid.
\<close>

fun coordinates ::
  "bacon_shor_code \<Rightarrow> (nat \<times> nat \<Rightarrow> nat) \<Rightarrow> int list \<Rightarrow> error + nat list" where
  "coordinates c k [] = Inr []"
| "coordinates c k (q # qs) =
     (case get_qubit_position c q of
        Inl e \<Rightarrow> Inl e
      | Inr pos \<Rightarrow> (case coordinates c k qs of Inl e \<Rightarrow> Inl e | Inr ps \<Rightarrow> Inr (k pos # ps)))"

text \<open>Whether two stabilizers of the type \<open>stab_type\<close> are to be combined.\<close>

definition span_fits ::
  "bacon_shor_code \<Rightarrow> symbol \<Rightarrow> stabilizer \<Rightarrow> stabilizer \<Rightarrow> error + bool" where
  "span_fits c stab_type stab1 stab2 =
     (if stab_type = Z then
        (case coordinates c snd (map fst stab1) of
           Inl e \<Rightarrow> Inl e
         | Inr cols1 \<Rightarrow>
             (case coordinates c snd (map fst stab2) of
                Inl e \<Rightarrow> Inl e
              | Inr cols2 \<Rightarrow> Inr (card (set cols1 \<union> set cols2) \<le> 2)))
      else if stab_type = X then
        (case coordinates c fst (map fst stab1) of
           Inl e \<Rightarrow> Inl e
         | Inr rows1 \<Rightarrow>
             (case coordinates c fst (map fst stab2) of
                Inl e \<Rightarrow> Inl e
              | Inr rows2 \<Rightarrow> Inr (card (set rows1 \<union> set rows2) \<le> 2)))
      else Inr False)"

text \<open>
  The two nested \<^verbatim>\<open>for\<close> loops of one pass of the \<^verbatim>\<open>while\<close> loop, up to the first pair
  that is combined: \<open>scan_inner\<close> runs \<^verbatim>\<open>stab2\<close> over the rest of the list for a fixed
  \<^verbatim>\<open>stab1\<close>, \<open>scan_outer\<close> runs \<^verbatim>\<open>stab1\<close>.
\<close>

fun scan_inner ::
  "bacon_shor_code \<Rightarrow> stabilizer \<Rightarrow> symbol \<Rightarrow> stabilizer list \<Rightarrow> error + stabilizer option"
where
  "scan_inner c stab1 stab_type [] = Inr None"
| "scan_inner c stab1 stab_type (stab2 # rest) =
     (case first_value stab2 of
        Inl e \<Rightarrow> Inl e
      | Inr t2 \<Rightarrow>
          if stab_type = t2 then
            (case span_fits c stab_type stab1 stab2 of
               Inl e \<Rightarrow> Inl e
             | Inr True \<Rightarrow> Inr (Some stab2)
             | Inr False \<Rightarrow> scan_inner c stab1 stab_type rest)
          else scan_inner c stab1 stab_type rest)"

fun scan_outer ::
  "bacon_shor_code \<Rightarrow> stabilizer list \<Rightarrow> error + (stabilizer \<times> stabilizer) option" where
  "scan_outer c [] = Inr None"
| "scan_outer c (stab1 # rest) =
     (case first_value stab1 of
        Inl e \<Rightarrow> Inl e
      | Inr stab_type \<Rightarrow>
          (case scan_inner c stab1 stab_type rest of
             Inl e \<Rightarrow> Inl e
           | Inr (Some stab2) \<Rightarrow> Inr (Some (stab1, stab2))
           | Inr None \<Rightarrow> scan_outer c rest))"

text \<open>The body of the innermost \<^verbatim>\<open>if\<close>: the pair is combined.\<close>

definition combine_stabilizers ::
  "stabilizer \<Rightarrow> stabilizer \<Rightarrow> stabilizer \<Rightarrow> stabilizer list \<times> stab_set \<Rightarrow>
   error + stabilizer list \<times> stab_set" where
  "combine_stabilizers meas_stab stab1 stab2 st =
     (let gens1 = set_discard stab2 (set_discard stab1 (snd st)) in
      case list_remove stab1 (fst st) of
        Inl e \<Rightarrow> Inl e
      | Inr A1 \<Rightarrow>
          (case list_remove stab2 A1 of
             Inl e \<Rightarrow> Inl e
           | Inr A2 \<Rightarrow>
               (let combined_stab = multiply stab1 stab2 in
                if \<not> is_trivial combined_stab then
                  (case measurement_of meas_stab of
                     Inl e \<Rightarrow> Inl e
                   | Inr m \<Rightarrow>
                       if \<not> commutes_with combined_stab m
                       then Inr (A2 @ [combined_stab], set_add combined_stab gens1)
                       else Inr (A2, set_add combined_stab gens1))
                else Inr (A2, gens1))))"

text \<open>
  The \<^verbatim>\<open>while changed\<close> loop. Nothing in its text bounds the number of passes, so the
  model does not assume that it ends: \<open>None\<close> stands for a loop that runs forever.
\<close>

partial_function (option) resolve_loop ::
  "bacon_shor_code \<Rightarrow> stabilizer \<Rightarrow> stabilizer list \<times> stab_set \<Rightarrow>
   (error + stabilizer list \<times> stab_set) option" where
  "resolve_loop c meas_stab st =
     (case scan_outer c (fst st) of
        Inl e \<Rightarrow> Some (Inl e)
      | Inr None \<Rightarrow> Some (Inr st)
      | Inr (Some pair) \<Rightarrow>
          (case combine_stabilizers meas_stab (fst pair) (snd pair) st of
             Inl e \<Rightarrow> Some (Inl e)
           | Inr st' \<Rightarrow> resolve_loop c meas_stab st'))"

declare resolve_loop.simps [code]

text \<open>\<^verbatim>\<open>adjust_stabilizers\<close> of the interactive tool: the loop over the measurements.\<close>

fun adjust_stabilizers ::
  "set_order \<Rightarrow> bacon_shor_code \<Rightarrow> stabilizer list \<Rightarrow> stab_set \<Rightarrow> (error + stab_set) option"
where
  "adjust_stabilizers ord c [] gens = Some (Inr gens)"
| "adjust_stabilizers ord c (meas_stab # rest) gens =
     (case anti_commuting_stabs ord meas_stab gens of
        Inl e \<Rightarrow> Some (Inl e)
      | Inr A \<Rightarrow>
          (case resolve_loop c meas_stab (A, gens) of
             None \<Rightarrow> None
           | Some (Inl e) \<Rightarrow> Some (Inl e)
           | Some (Inr st) \<Rightarrow> adjust_stabilizers ord c rest (fold set_discard (fst st) (snd st))))"

section \<open>The time step\<close>

text \<open>
  The first loop of \<^verbatim>\<open>update_stabilizers\<close>: one stabilizer per measurement, built by the
  dictionary comprehension \<^verbatim>\<open>{q: meas_type for q in meas}\<close>.
\<close>

definition measurement_stabilizer :: "bacon_shor_code \<Rightarrow> int \<times> int \<Rightarrow> error + stabilizer" where
  "measurement_stabilizer c meas =
     (case get_measurement_type c meas of
        Inl e \<Rightarrow> Inl e
      | Inr meas_type \<Rightarrow> Inr (dict_set (dict_set [] (fst meas) meas_type) (snd meas) meas_type))"

fun build_stabilizers ::
  "bacon_shor_code \<Rightarrow> (int \<times> int) list \<Rightarrow> stab_set \<times> stabilizer list \<Rightarrow>
   error + stab_set \<times> stabilizer list" where
  "build_stabilizers c [] acc = Inr acc"
| "build_stabilizers c (meas # rest) acc =
     (case measurement_stabilizer c meas of
        Inl e \<Rightarrow> Inl e
      | Inr meas_stab \<Rightarrow>
          build_stabilizers c rest (set_add meas_stab (fst acc), snd acc @ [meas_stab]))"

definition update_stabilizers ::
  "set_order \<Rightarrow> bacon_shor_code \<Rightarrow> (int \<times> int) list \<Rightarrow> (error + bacon_shor_code) option" where
  "update_stabilizers ord c measurements =
     (case build_stabilizers c measurements ([], []) of
        Inl e \<Rightarrow> Some (Inl e)
      | Inr (new_stabilizers, measurement_stabilizers) \<Rightarrow>
          if time_step c = 1 then Some (Inr (c\<lparr>stabilizer_generators := new_stabilizers\<rparr>))
          else
            (case adjust_stabilizers ord c measurement_stabilizers
                    (set_union_update ord (stabilizer_generators c) new_stabilizers) of
               None \<Rightarrow> None
             | Some (Inl e) \<Rightarrow> Some (Inl e)
             | Some (Inr gens) \<Rightarrow>
                 Some (Inr (c\<lparr>stabilizer_generators := simplify_stabilizers ord gens\<rparr>))))"

text \<open>
  \<^verbatim>\<open>run_time_step\<close>. The drawing of the grid at its end shows the state and does not
  change it.
\<close>

definition run_time_step ::
  "set_order \<Rightarrow> bacon_shor_code \<Rightarrow> (int \<times> int) list \<Rightarrow> (error + bacon_shor_code) option" where
  "run_time_step ord c measurements =
     (let c1 = c\<lparr>time_step := time_step c + 1\<rparr>;
          valid_measurements = filter (\<lambda>qubit_pair. fst (is_valid_measurement c1 qubit_pair)) measurements
      in case update_stabilizers ord c1 valid_measurements of
           None \<Rightarrow> None
         | Some (Inl e) \<Rightarrow> Some (Inl e)
         | Some (Inr c2) \<Rightarrow>
             Some (Inr (c2\<lparr>current_measurements := valid_measurements,
                           measurements_history := measurements_history c2 @ [valid_measurements],
                           selected_edges := []\<rparr>)))"

text \<open>A schedule of batches, one time step each; it stops at the first step that raises.\<close>

fun run_schedule ::
  "set_order \<Rightarrow> bacon_shor_code \<Rightarrow> (int \<times> int) list list \<Rightarrow> (error + bacon_shor_code) option"
where
  "run_schedule ord c [] = Some (Inr c)"
| "run_schedule ord c (batch # rest) =
     (case run_time_step ord c batch of
        None \<Rightarrow> None
      | Some (Inl e) \<Rightarrow> Some (Inl e)
      | Some (Inr c') \<Rightarrow> run_schedule ord c' rest)"

section \<open>The first version of the tool\<close>

text \<open>
  \<^verbatim>\<open>BaconShorViz_Initial.py\<close> has the same \<^verbatim>\<open>Stabilizer\<close> class and the same validation. Its
  \<^verbatim>\<open>adjust_stabilizers\<close> pops the last two members of the list of anti-commuting generators,
  whatever they are, replaces them by their product and collects the list again from the
  generator set; its \<^verbatim>\<open>update_stabilizers\<close> does not simplify.
\<close>

partial_function (option) pair_loop_initial ::
  "set_order \<Rightarrow> stabilizer \<Rightarrow> stabilizer list \<times> stab_set \<Rightarrow>
   (error + stabilizer list \<times> stab_set) option" where
  "pair_loop_initial ord meas_stab st =
     (if length (fst st) \<ge> 2 then
        (let stab1 = last (fst st);
             stab2 = last (butlast (fst st));
             combined_stab = multiply stab1 stab2;
             gens1 = set_discard stab2 (set_discard stab1 (snd st));
             gens2 = (if \<not> is_trivial combined_stab then set_add combined_stab gens1 else gens1)
         in case anti_commuting_stabs ord meas_stab gens2 of
              Inl e \<Rightarrow> Some (Inl e)
            | Inr A \<Rightarrow> pair_loop_initial ord meas_stab (A, gens2))
      else Some (Inr st))"

declare pair_loop_initial.simps [code]

fun adjust_stabilizers_initial ::
  "set_order \<Rightarrow> stabilizer list \<Rightarrow> stab_set \<Rightarrow> (error + stab_set) option" where
  "adjust_stabilizers_initial ord [] gens = Some (Inr gens)"
| "adjust_stabilizers_initial ord (meas_stab # rest) gens =
     (case anti_commuting_stabs ord meas_stab gens of
        Inl e \<Rightarrow> Some (Inl e)
      | Inr A \<Rightarrow>
          (case pair_loop_initial ord meas_stab (A, gens) of
             None \<Rightarrow> None
           | Some (Inl e) \<Rightarrow> Some (Inl e)
           | Some (Inr st) \<Rightarrow>
               adjust_stabilizers_initial ord rest
                 (case fst st of [stab] \<Rightarrow> set_discard stab (snd st) | _ \<Rightarrow> snd st)))"

definition update_stabilizers_initial ::
  "set_order \<Rightarrow> bacon_shor_code \<Rightarrow> (int \<times> int) list \<Rightarrow> (error + bacon_shor_code) option" where
  "update_stabilizers_initial ord c measurements =
     (case build_stabilizers c measurements ([], []) of
        Inl e \<Rightarrow> Some (Inl e)
      | Inr (new_stabilizers, measurement_stabilizers) \<Rightarrow>
          if time_step c = 1 then Some (Inr (c\<lparr>stabilizer_generators := new_stabilizers\<rparr>))
          else
            (case adjust_stabilizers_initial ord measurement_stabilizers
                    (set_union_update ord (stabilizer_generators c) new_stabilizers) of
               None \<Rightarrow> None
             | Some (Inl e) \<Rightarrow> Some (Inl e)
             | Some (Inr gens) \<Rightarrow> Some (Inr (c\<lparr>stabilizer_generators := gens\<rparr>))))"

definition run_time_step_initial ::
  "set_order \<Rightarrow> bacon_shor_code \<Rightarrow> (int \<times> int) list \<Rightarrow> (error + bacon_shor_code) option" where
  "run_time_step_initial ord c measurements =
     (let c1 = c\<lparr>time_step := time_step c + 1\<rparr>;
          valid_measurements = filter (\<lambda>qubit_pair. fst (is_valid_measurement c1 qubit_pair)) measurements
      in case update_stabilizers_initial ord c1 valid_measurements of
           None \<Rightarrow> None
         | Some (Inl e) \<Rightarrow> Some (Inl e)
         | Some (Inr c2) \<Rightarrow>
             Some (Inr (c2\<lparr>prev_measurements := current_measurements c2,
                           current_measurements := valid_measurements\<rparr>)))"

fun run_schedule_initial ::
  "set_order \<Rightarrow> bacon_shor_code \<Rightarrow> (int \<times> int) list list \<Rightarrow> (error + bacon_shor_code) option"
where
  "run_schedule_initial ord c [] = Some (Inr c)"
| "run_schedule_initial ord c (batch # rest) =
     (case run_time_step_initial ord c batch of
        None \<Rightarrow> None
      | Some (Inl e) \<Rightarrow> Some (Inl e)
      | Some (Inr c') \<Rightarrow> run_schedule_initial ord c' rest)"

section \<open>Properties of a generator set\<close>

text \<open>No two members equal by \<^verbatim>\<open>__eq__\<close>.\<close>

fun no_duplicates :: "stab_set \<Rightarrow> bool" where
  "no_duplicates [] = True"
| "no_duplicates (g # gens) = (list_all (\<lambda>h. \<not> stab_eq g h \<and> \<not> stab_eq h g) gens \<and> no_duplicates gens)"

text \<open>
  No member's set of (qubit, symbol) pairs contains the set of a member that stands before
  it in the list, that is, of one that was added to the set before it.
\<close>

fun no_earlier_subset :: "stab_set \<Rightarrow> bool" where
  "no_earlier_subset [] = True"
| "no_earlier_subset (g # gens) = (list_all (\<lambda>h. \<not> set g \<subseteq> set h) gens \<and> no_earlier_subset gens)"

text \<open>No member's set of (qubit, symbol) pairs is contained in another member's.\<close>

definition no_subsets :: "stab_set \<Rightarrow> bool" where
  "no_subsets gens = (distinct gens \<and> (\<forall>g \<in> set gens. \<forall>h \<in> set gens. set h \<subseteq> set g \<longrightarrow> h = g))"

section \<open>Dictionaries as finite maps\<close>

lemma dict_get_del: "dict_get (dict_del d q) k = (if k = q then None else dict_get d k)"
  unfolding dict_get_def dict_del_def
  by (induction d) auto

lemma dict_get_set: "dict_get (dict_set d q v) k = (if k = q then Some v else dict_get d k)"
  unfolding dict_get_def
  by (induction d q v rule: dict_set.induct) auto

lemma keys_dict_del: "set (map fst (dict_del d q)) = set (map fst d) - {q}"
  unfolding dict_del_def by auto

lemma keys_dict_set: "set (map fst (dict_set d q v)) = insert q (set (map fst d))"
  by (induction d q v rule: dict_set.induct) auto

lemma wf_dict_del: "wf_dict d \<Longrightarrow> wf_dict (dict_del d q)"
  unfolding wf_dict_def dict_del_def by (simp add: distinct_map_filter)

lemma wf_dict_set: "wf_dict d \<Longrightarrow> wf_dict (dict_set d q v)"
proof (induction d q v rule: dict_set.induct)
  case (1 q v)
  then show ?case by (simp add: wf_dict_def)
next
  case (2 k w d q v)
  then show ?case
    using keys_dict_set [of d q v] by (auto simp: wf_dict_def)
qed

lemma wf_multiply_step: "wf_dict d \<Longrightarrow> wf_dict (multiply_step qop d)"
  unfolding multiply_step_def
  by (auto simp: wf_dict_del wf_dict_set split: option.splits)

lemma wf_fold_multiply_step: "wf_dict d \<Longrightarrow> wf_dict (fold multiply_step other d)"
  by (induction other arbitrary: d) (auto simp: wf_multiply_step)

lemma wf_multiply: "wf_dict s \<Longrightarrow> wf_dict (multiply s other)"
  unfolding multiply_def by (rule wf_fold_multiply_step)

text \<open>The product, key by key: what \<^verbatim>\<open>multiply\<close> leaves at a qubit.\<close>

definition combine :: "symbol option \<Rightarrow> symbol option \<Rightarrow> symbol option" where
  "combine a b =
     (case b of None \<Rightarrow> a
      | Some w \<Rightarrow> (case a of None \<Rightarrow> Some w | Some v \<Rightarrow> if v = w then None else Some Y))"

lemma dict_get_multiply_step:
  "dict_get (multiply_step qop d) k =
     (if k = fst qop then combine (dict_get d k) (Some (snd qop)) else dict_get d k)"
  unfolding multiply_step_def combine_def
  by (auto simp: dict_get_del dict_get_set split: option.splits)

lemma dict_get_fold_multiply_step:
  "distinct (map fst other) \<Longrightarrow>
   dict_get (fold multiply_step other d) k = combine (dict_get d k) (map_of other k)"
proof (induction other arbitrary: d)
  case Nil
  then show ?case by (simp add: combine_def)
next
  case (Cons qop other)
  obtain q v where qop: "qop = (q, v)" by (cases qop)
  from Cons.prems have nin: "q \<notin> fst ` set other" and dist: "distinct (map fst other)"
    by (auto simp: qop)
  have step: "dict_get (fold multiply_step (qop # other) d) k
      = combine (dict_get (multiply_step qop d) k) (map_of other k)"
    using Cons.IH [OF dist] by simp
  show ?case
  proof (cases "k = q")
    case True
    with nin have "map_of other k = None"
      by (simp add: map_of_eq_None_iff)
    with True step show ?thesis
      by (simp add: qop dict_get_multiply_step combine_def)
  next
    case False
    with step show ?thesis
      by (simp add: qop dict_get_multiply_step)
  qed
qed

lemma dict_get_multiply:
  "wf_dict other \<Longrightarrow> dict_get (multiply s other) k = combine (dict_get s k) (dict_get other k)"
proof -
  assume "wf_dict other"
  then have "distinct (map fst other)" by (simp add: wf_dict_def)
  then have "dict_get (fold multiply_step other s) k = combine (dict_get s k) (map_of other k)"
    by (rule dict_get_fold_multiply_step)
  then show ?thesis by (simp add: multiply_def dict_get_def)
qed

lemma combine_commute: "combine a b = combine b a"
  unfolding combine_def by (auto split: option.splits)

lemma combine_self: "combine a a = None"
  unfolding combine_def by (auto split: option.splits)

text \<open>Two dictionaries are equal exactly when they are the same finite map.\<close>

lemma wf_dict_card: "wf_dict d \<Longrightarrow> card (dom (map_of d)) = length d"
  unfolding wf_dict_def
  by (metis distinct_card dom_map_of_conv_image_fst length_map list.set_map)

lemma stab_eq_iff:
  assumes "wf_dict s" and "wf_dict t"
  shows "stab_eq s t \<longleftrightarrow> (\<forall>k. dict_get s k = dict_get t k)"
proof
  assume eq: "stab_eq s t"
  then have len: "length s = length t"
    and all: "\<forall>kv \<in> set s. map_of t (fst kv) = Some (snd kv)"
    by (auto simp: stab_eq_def list_all_iff dict_get_def)
  have sub: "dom (map_of s) \<subseteq> dom (map_of t)"
  proof
    fix k assume "k \<in> dom (map_of s)"
    then obtain v where "map_of s k = Some v" by auto
    then have "(k, v) \<in> set s" by (rule map_of_SomeD)
    with all show "k \<in> dom (map_of t)" by fastforce
  qed
  have "card (dom (map_of s)) = card (dom (map_of t))"
    using assms len by (simp add: wf_dict_card)
  with sub have doms: "dom (map_of s) = dom (map_of t)"
    by (simp add: card_subset_eq finite_dom_map_of)
  show "\<forall>k. dict_get s k = dict_get t k"
  proof
    fix k
    show "dict_get s k = dict_get t k"
    proof (cases "map_of s k")
      case None
      with doms have "map_of t k = None" by (metis domIff)
      with None show ?thesis by (simp add: dict_get_def)
    next
      case (Some v)
      then have "(k, v) \<in> set s" by (rule map_of_SomeD)
      with all have "map_of t k = Some v" by fastforce
      with Some show ?thesis by (simp add: dict_get_def)
    qed
  qed
next
  assume eq: "\<forall>k. dict_get s k = dict_get t k"
  then have maps: "map_of s = map_of t" by (auto simp: dict_get_def)
  then have "length s = length t"
    using assms wf_dict_card by metis
  moreover have "\<forall>kv \<in> set s. map_of t (fst kv) = Some (snd kv)"
  proof
    fix kv assume "kv \<in> set s"
    then have "map_of s (fst kv) = Some (snd kv)"
      using assms(1) by (simp add: wf_dict_def)
    with maps show "map_of t (fst kv) = Some (snd kv)" by simp
  qed
  ultimately show "stab_eq s t"
    by (simp add: stab_eq_def list_all_iff dict_get_def)
qed

lemma dict_empty_iff: "d = [] \<longleftrightarrow> (\<forall>k. dict_get d k = None)"
proof
  assume "d = []"
  then show "\<forall>k. dict_get d k = None" by (simp add: dict_get_def)
next
  assume none: "\<forall>k. dict_get d k = None"
  show "d = []"
  proof (cases d)
    case Nil
    then show ?thesis .
  next
    case (Cons kv d')
    then have "dict_get d (fst kv) \<noteq> None"
      by (simp add: dict_get_def)
    with none show ?thesis by simp
  qed
qed

section \<open>Commutation counts\<close>

lemma fold_count:
  "fold (\<lambda>q n. if P q then n + 1 else n) qs (n0::nat) = n0 + length (filter P qs)"
  by (induction qs arbitrary: n0) auto

lemma commutes_with_even:
  "commutes_with s (qs, t) \<longleftrightarrow> even (length (filter (anti_commuting_at s t) qs))"
  unfolding commutes_with_def by (simp add: fold_count even_iff_mod_2_eq_zero)

lemma even_filter_xor:
  "(\<And>q. C q \<longleftrightarrow> (A q \<noteq> B q)) \<Longrightarrow>
   even (length (filter C qs)) \<longleftrightarrow> (even (length (filter A qs)) \<longleftrightarrow> even (length (filter B qs)))"
  by (induction qs) auto

definition xz_only :: "stabilizer \<Rightarrow> bool" where
  "xz_only s = list_all (\<lambda>kv. snd kv = X \<or> snd kv = Z) s"

lemma xz_only_get: "xz_only s \<Longrightarrow> dict_get s q = Some v \<Longrightarrow> v = X \<or> v = Z"
proof -
  assume xz: "xz_only s" and "dict_get s q = Some v"
  then have "(q, v) \<in> set s"
    by (simp add: dict_get_def map_of_SomeD)
  with xz show ?thesis
    by (fastforce simp: xz_only_def list_all_iff)
qed

lemma anti_commuting_multiply:
  assumes "wf_dict t" and "xz_only s" and "xz_only t" and "ty = X \<or> ty = Z"
  shows "anti_commuting_at (multiply s t) ty q
     \<longleftrightarrow> (anti_commuting_at s ty q \<noteq> anti_commuting_at t ty q)"
proof -
  have get: "dict_get (multiply s t) q = combine (dict_get s q) (dict_get t q)"
    using assms(1) by (rule dict_get_multiply)
  show ?thesis
  proof (cases "dict_get s q")
    case None
    then show ?thesis
      by (simp add: anti_commuting_at_def get combine_def split: option.splits)
  next
    case s: (Some v)
    then have v: "v = X \<or> v = Z" using assms(2) by (rule xz_only_get [rotated])
    show ?thesis
    proof (cases "dict_get t q")
      case None
      with s show ?thesis
        by (simp add: anti_commuting_at_def get combine_def)
    next
      case t: (Some w)
      then have w: "w = X \<or> w = Z" using assms(3) by (rule xz_only_get [rotated])
      from s t v w assms(4) show ?thesis
        by (auto simp: anti_commuting_at_def get combine_def)
    qed
  qed
qed

section \<open>Properties of the stabilizer terms\<close>

text \<open>
  C5. Multiplication is commutative up to the equality of \<^verbatim>\<open>__eq__\<close>, and the product of
  a term with itself is trivial, for all dictionaries (keys distinct), whatever symbols
  they hold.
\<close>

theorem multiply_commutative_self_inverse:
  assumes "wf_dict s" and "wf_dict t"
  shows "stab_eq (multiply s t) (multiply t s) \<and> is_trivial (multiply s s)"
proof
  have "\<forall>k. dict_get (multiply s t) k = dict_get (multiply t s) k"
    using assms by (simp add: dict_get_multiply combine_commute)
  moreover have "wf_dict (multiply s t)" and "wf_dict (multiply t s)"
    using assms by (simp_all add: wf_multiply)
  ultimately show "stab_eq (multiply s t) (multiply t s)"
    by (simp add: stab_eq_iff)
next
  have "\<forall>k. dict_get (multiply s s) k = None"
    using assms(1) by (simp add: dict_get_multiply combine_self)
  then have "multiply s s = []"
    by (simp add: dict_empty_iff)
  then show "is_trivial (multiply s s)"
    by (simp add: is_trivial_def)
qed

theorem multiply_commutative_self_inverse_witness:
  "wf_dict [(1, X), (2, Z)] \<and> wf_dict [(2, X), (3, Z), (1, X)] \<and>
   stab_eq (multiply [(1, X), (2, Z)] [(2, X), (3, Z), (1, X)])
           (multiply [(2, X), (3, Z), (1, X)] [(1, X), (2, Z)]) \<and>
   multiply [(1, X), (2, Z)] [(2, X), (3, Z), (1, X)] = [(2, Y), (3, Z)] \<and>
   multiply [(2, X), (3, Z), (1, X)] [(1, X), (2, Z)] = [(2, Y), (3, Z)] \<and>
   is_trivial (multiply [(1, X), (2, Z)] [(1, X), (2, Z)])"
proof -
  have s: "wf_dict [(1, X), (2, Z)]" and t: "wf_dict [(2, X), (3, Z), (1, X)]"
    by (simp_all add: wf_dict_def)
  have "multiply [(1, X), (2, Z)] [(2, X), (3, Z), (1, X)] = [(2, Y), (3, Z)]"
    and "multiply [(2, X), (3, Z), (1, X)] [(1, X), (2, Z)] = [(2, Y), (3, Z)]"
    by (simp_all add: multiply_def multiply_step_def dict_get_def dict_del_def)
  with s t multiply_commutative_self_inverse [OF s t] show ?thesis
    by simp
qed

text \<open>
  C2, as stated, fails: \<^verbatim>\<open>multiply\<close> writes \<^verbatim>\<open>'Y'\<close> wherever the two symbols differ, also
  where one of them is already \<^verbatim>\<open>'Y'\<close>. With \<open>s = {1: Y, 2: X}\<close> and \<open>t = {1: X, 2: X}\<close>,
  both commute with the Z measurement on the qubits 1 and 2, and their product
  \<open>{1: Y}\<close> does not.
\<close>

theorem commutant_not_closed_counterexample:
  "commutes_with [(1, Y), (2, X)] ([1, 2], Z) \<and>
   commutes_with [(1, X), (2, X)] ([1, 2], Z) \<and>
   multiply [(1, Y), (2, X)] [(1, X), (2, X)] = [(1, Y)] \<and>
   \<not> commutes_with (multiply [(1, Y), (2, X)] [(1, X), (2, X)]) ([1, 2], Z)"
  by (simp add: commutes_with_def anti_commuting_at_def multiply_def multiply_step_def
      dict_get_def dict_del_def)

text \<open>
  C2, amended. For two terms that hold only the symbols X and Z, as the measurement
  terms do (\<^verbatim>\<open>{qubit_index: 'X' or 'Z'}\<close> in the constructor), and a measurement of type X
  or Z on any list of qubits: if both terms commute with the measurement, so does their
  product.
\<close>

theorem commutant_closed_xz:
  assumes "wf_dict s" and "wf_dict t" and "xz_only s" and "xz_only t"
    and "ty = X \<or> ty = Z"
    and "commutes_with s (qs, ty)" and "commutes_with t (qs, ty)"
  shows "commutes_with (multiply s t) (qs, ty)"
proof -
  have "even (length (filter (anti_commuting_at (multiply s t) ty) qs))
      \<longleftrightarrow> (even (length (filter (anti_commuting_at s ty) qs))
           \<longleftrightarrow> even (length (filter (anti_commuting_at t ty) qs)))"
    by (rule even_filter_xor) (rule anti_commuting_multiply [OF assms(2-5)])
  with assms(6,7) show ?thesis
    by (simp add: commutes_with_even)
qed

theorem commutant_closed_xz_witness:
  "wf_dict [(1, X), (2, X), (6, X)] \<and> wf_dict [(2, Z), (1, Z), (7, X)] \<and>
   xz_only [(1, X), (2, X), (6, X)] \<and> xz_only [(2, Z), (1, Z), (7, X)] \<and>
   commutes_with [(1, X), (2, X), (6, X)] ([1, 2], Z) \<and>
   commutes_with [(2, Z), (1, Z), (7, X)] ([1, 2], Z) \<and>
   multiply [(1, X), (2, X), (6, X)] [(2, Z), (1, Z), (7, X)]
     = [(1, Y), (2, Y), (6, X), (7, X)] \<and>
   commutes_with (multiply [(1, X), (2, X), (6, X)] [(2, Z), (1, Z), (7, X)]) ([1, 2], Z)"
proof -
  have h: "wf_dict [(1, X), (2, X), (6, X)]" "wf_dict [(2, Z), (1, Z), (7, X)]"
    "xz_only [(1, X), (2, X), (6, X)]" "xz_only [(2, Z), (1, Z), (7, X)]"
    "Z = X \<or> Z = Z"
    "commutes_with [(1, X), (2, X), (6, X)] ([1, 2], Z)"
    "commutes_with [(2, Z), (1, Z), (7, X)] ([1, 2], Z)"
    by (simp_all add: wf_dict_def xz_only_def commutes_with_def anti_commuting_at_def dict_get_def)
  have m: "multiply [(1, X), (2, X), (6, X)] [(2, Z), (1, Z), (7, X)]
     = [(1, Y), (2, Y), (6, X), (7, X)]"
    by (simp add: multiply_def multiply_step_def dict_get_def dict_del_def)
  from commutant_closed_xz [OF h] h m show ?thesis
    by simp
qed

section \<open>The grid\<close>

lemma argwhere_in_grid: "in_grid c q \<Longrightarrow> argwhere c q = [(row_of c q, col_of c q)]"
  by (simp add: argwhere_def in_grid_def num_qubits_def row_of_def col_of_def)

lemma argwhere_off_grid: "\<not> in_grid c q \<Longrightarrow> argwhere c q = []"
  by (auto simp: argwhere_def in_grid_def num_qubits_def)

lemma abs_diff_cases:
  "\<bar>int m - int n\<bar> + \<bar>int k - int l\<bar> = 1 \<longleftrightarrow>
   (\<bar>int m - int n\<bar> = 1 \<and> k = l) \<or> (m = n \<and> \<bar>int k - int l\<bar> = 1)"
  by auto

lemma is_valid_measurement_eq:
  "is_valid_measurement c (a, b) =
     (if \<not> in_grid c a \<or> \<not> in_grid c b then (False, ''Qubit does not exist in the grid.'')
      else if manhattan c a b = 1 then (True, [])
      else (False, ''Qubits are not adjacent.''))"
proof (cases "in_grid c a \<and> in_grid c b")
  case True
  then show ?thesis
    unfolding is_valid_measurement_def manhattan_def
    by (simp add: argwhere_in_grid Let_def abs_diff_cases) 
next
  case False
  then show ?thesis
    by (auto simp: is_valid_measurement_def argwhere_off_grid argwhere_in_grid split: list.splits)
qed

lemma get_measurement_type_in_grid:
  assumes "in_grid c a" and "in_grid c b"
  shows "get_measurement_type c (a, b) =
     (if \<bar>int (row_of c a) - int (row_of c b)\<bar> = 1 \<and> col_of c a = col_of c b then Inr X
      else if \<bar>int (col_of c a) - int (col_of c b)\<bar> = 1 \<and> row_of c a = row_of c b then Inr Z
      else Inr NoneSym)"
  using assms by (simp add: get_measurement_type_def argwhere_in_grid)

lemma get_measurement_type_off_grid:
  "\<not> in_grid c a \<or> \<not> in_grid c b \<Longrightarrow> get_measurement_type c (a, b) = Inl IndexError"
  by (auto simp: get_measurement_type_def argwhere_off_grid split: list.splits)

lemma geometry_time_step [simp]:
  "is_valid_measurement (c\<lparr>time_step := t\<rparr>) = is_valid_measurement c"
  "get_measurement_type (c\<lparr>time_step := t\<rparr>) = get_measurement_type c"
  by (auto simp: fun_eq_iff is_valid_measurement_def get_measurement_type_def argwhere_def
      num_qubits_def)

text \<open>
  C7. The type of an edge does not depend on the order of its two qubits; for two ids of
  the grid it is X exactly for vertical neighbours, Z exactly for horizontal neighbours,
  and \<^verbatim>\<open>None\<close> exactly when the two are not adjacent (Manhattan distance other than 1,
  which is when \<^verbatim>\<open>is_valid_measurement\<close> rejects the pair).
\<close>

theorem get_measurement_type_edges:
  "get_measurement_type c (a, b) = get_measurement_type c (b, a) \<and>
   (in_grid c a \<and> in_grid c b \<longrightarrow>
     (get_measurement_type c (a, b) = Inr X \<longleftrightarrow>
        \<bar>int (row_of c a) - int (row_of c b)\<bar> = 1 \<and> col_of c a = col_of c b) \<and>
     (get_measurement_type c (a, b) = Inr Z \<longleftrightarrow>
        \<bar>int (col_of c a) - int (col_of c b)\<bar> = 1 \<and> row_of c a = row_of c b) \<and>
     (get_measurement_type c (a, b) = Inr NoneSym \<longleftrightarrow> manhattan c a b \<noteq> 1) \<and>
     (get_measurement_type c (a, b) = Inr NoneSym \<longleftrightarrow> \<not> fst (is_valid_measurement c (a, b))))"
proof
  show "get_measurement_type c (a, b) = get_measurement_type c (b, a)"
  proof (cases "in_grid c a \<and> in_grid c b")
    case True
    then show ?thesis
      by (auto simp: get_measurement_type_in_grid)
  next
    case False
    then show ?thesis
      by (auto simp: get_measurement_type_off_grid)
  qed
next
  show "in_grid c a \<and> in_grid c b \<longrightarrow>
     (get_measurement_type c (a, b) = Inr X \<longleftrightarrow>
        \<bar>int (row_of c a) - int (row_of c b)\<bar> = 1 \<and> col_of c a = col_of c b) \<and>
     (get_measurement_type c (a, b) = Inr Z \<longleftrightarrow>
        \<bar>int (col_of c a) - int (col_of c b)\<bar> = 1 \<and> row_of c a = row_of c b) \<and>
     (get_measurement_type c (a, b) = Inr NoneSym \<longleftrightarrow> manhattan c a b \<noteq> 1) \<and>
     (get_measurement_type c (a, b) = Inr NoneSym \<longleftrightarrow> \<not> fst (is_valid_measurement c (a, b)))"
  proof
    assume g: "in_grid c a \<and> in_grid c b"
    then have t: "get_measurement_type c (a, b) =
       (if \<bar>int (row_of c a) - int (row_of c b)\<bar> = 1 \<and> col_of c a = col_of c b then Inr X
        else if \<bar>int (col_of c a) - int (col_of c b)\<bar> = 1 \<and> row_of c a = row_of c b then Inr Z
        else Inr NoneSym)"
      by (simp add: get_measurement_type_in_grid)
    have v: "fst (is_valid_measurement c (a, b)) \<longleftrightarrow> manhattan c a b = 1"
      using g by (simp add: is_valid_measurement_eq)
    have m: "manhattan c a b = 1 \<longleftrightarrow>
       (\<bar>int (row_of c a) - int (row_of c b)\<bar> = 1 \<and> col_of c a = col_of c b) \<or>
       (row_of c a = row_of c b \<and> \<bar>int (col_of c a) - int (col_of c b)\<bar> = 1)"
      unfolding manhattan_def by (rule abs_diff_cases)
    show "(get_measurement_type c (a, b) = Inr X \<longleftrightarrow>
        \<bar>int (row_of c a) - int (row_of c b)\<bar> = 1 \<and> col_of c a = col_of c b) \<and>
     (get_measurement_type c (a, b) = Inr Z \<longleftrightarrow>
        \<bar>int (col_of c a) - int (col_of c b)\<bar> = 1 \<and> row_of c a = row_of c b) \<and>
     (get_measurement_type c (a, b) = Inr NoneSym \<longleftrightarrow> manhattan c a b \<noteq> 1) \<and>
     (get_measurement_type c (a, b) = Inr NoneSym \<longleftrightarrow> \<not> fst (is_valid_measurement c (a, b)))"
      unfolding v m t by auto
  qed
qed

theorem get_measurement_type_edges_witness:
  "in_grid (init 4 4) 7 \<and> in_grid (init 4 4) 12 \<and> in_grid (init 4 4) 8 \<and> in_grid (init 4 4) 13 \<and>
   get_measurement_type (init 4 4) (7, 12) = Inr X \<and>
   get_measurement_type (init 4 4) (12, 7) = Inr X \<and>
   get_measurement_type (init 4 4) (7, 8) = Inr Z \<and>
   get_measurement_type (init 4 4) (7, 13) = Inr NoneSym \<and>
   manhattan (init 4 4) 7 12 = 1 \<and> manhattan (init 4 4) 7 13 \<noteq> 1 \<and>
   \<not> fst (is_valid_measurement (init 4 4) (7, 13))"
  using get_measurement_type_edges [of "init 4 4" 7 12]
    get_measurement_type_edges [of "init 4 4" 7 8] get_measurement_type_edges [of "init 4 4" 7 13]
  by (simp add: in_grid_def init_def row_of_def col_of_def manhattan_def
      get_measurement_type_def is_valid_measurement_def argwhere_def num_qubits_def)

section \<open>Termination of the resolution\<close>

lemma list_remove_length: "list_remove x xs = Inr ys \<Longrightarrow> length xs = Suc (length ys)"
  by (induction xs arbitrary: ys) (auto split: if_splits sum.splits)

lemma combine_stabilizers_length:
  assumes "combine_stabilizers meas_stab stab1 stab2 st = Inr st'"
  shows "length (fst st') < length (fst st) \<and> length (fst st) \<le> length (fst st') + 2"
proof -
  from assms obtain A1 A2 where r1: "list_remove stab1 (fst st) = Inr A1"
    and r2: "list_remove stab2 A1 = Inr A2"
    and A': "fst st' = A2 \<or> fst st' = A2 @ [multiply stab1 stab2]"
    by (auto simp: combine_stabilizers_def Let_def split: sum.splits if_splits)
  from r1 r2 have "length (fst st) = Suc (Suc (length A2))"
    by (simp add: list_remove_length)
  with A' show ?thesis by auto
qed

lemma resolve_loop_returns: "\<exists>r. resolve_loop c meas_stab st = Some r"
proof (induction "length (fst st)" arbitrary: st rule: less_induct)
  case less
  show ?case
  proof (cases "scan_outer c (fst st)")
    case (Inl e)
    then show ?thesis
      by (subst resolve_loop.simps) simp
  next
    case scan: (Inr found)
    show ?thesis
    proof (cases found)
      case None
      with scan show ?thesis
        by (subst resolve_loop.simps) simp
    next
      case (Some pair)
      show ?thesis
      proof (cases "combine_stabilizers meas_stab (fst pair) (snd pair) st")
        case (Inl e)
        with scan Some show ?thesis
          by (subst resolve_loop.simps) simp
      next
        case (Inr st')
        then have "length (fst st') < length (fst st)"
          by (simp add: combine_stabilizers_length)
        then obtain r where "resolve_loop c meas_stab st' = Some r"
          using less by blast
        with scan Some Inr show ?thesis
          by (subst resolve_loop.simps) simp
      qed
    qed
  qed
qed

lemma adjust_stabilizers_returns: "\<exists>r. adjust_stabilizers ord c measurement_stabilizers gens = Some r"
proof (induction measurement_stabilizers arbitrary: gens)
  case Nil
  then show ?case by simp
next
  case (Cons meas_stab rest)
  show ?case
  proof (cases "anti_commuting_stabs ord meas_stab gens")
    case (Inl e)
    then show ?thesis by simp
  next
    case (Inr A)
    obtain r where r: "resolve_loop c meas_stab (A, gens) = Some r"
      using resolve_loop_returns by blast
    show ?thesis
    proof (cases r)
      case (Inl e)
      with Inr r show ?thesis by simp
    next
      case st: (Inr st)
      with Inr r Cons.IH [of "fold set_discard (fst st) (snd st)"] show ?thesis
        by simp
    qed
  qed
qed

text \<open>
  C10. The resolution ends, for every lattice, every list of measurement stabilizers,
  every generator set and every order of iteration: \<^verbatim>\<open>adjust_stabilizers\<close> returns (a set of
  generators or an exception), and so does the \<^verbatim>\<open>while\<close> loop from every working list. A
  combination that goes through removes two members of the working list and appends at
  most one, so the list gets shorter by one or by two.
\<close>

theorem adjust_stabilizers_terminates:
  "(\<exists>r. adjust_stabilizers ord c measurement_stabilizers gens = Some r) \<and>
   (\<exists>r. resolve_loop c meas_stab (A, gens) = Some r) \<and>
   (\<forall>st'. combine_stabilizers meas_stab stab1 stab2 (A, gens) = Inr st' \<longrightarrow>
      length (fst st') < length A \<and> length A \<le> length (fst st') + 2)"
proof (intro conjI allI impI)
  show "\<exists>r. adjust_stabilizers ord c measurement_stabilizers gens = Some r"
    by (rule adjust_stabilizers_returns)
  show "\<exists>r. resolve_loop c meas_stab (A, gens) = Some r"
    by (rule resolve_loop_returns)
next
  fix st' assume "combine_stabilizers meas_stab stab1 stab2 (A, gens) = Inr st'"
  from combine_stabilizers_length [OF this]
  show "length (fst st') < length A" and "length A \<le> length (fst st') + 2"
    by simp_all
qed

theorem adjust_stabilizers_terminates_witness:
  "(\<exists>r. adjust_stabilizers storage_order (init 4 4) [[(1, X), (6, X)]]
          [[(1, Z), (2, Z)], [(6, Z), (7, Z)], [(1, X), (6, X)]] = Some r) \<and>
   combine_stabilizers [(1, X), (6, X)] [(1, Z), (2, Z)] [(6, Z), (7, Z)]
     ([[(1, Z), (2, Z)], [(6, Z), (7, Z)]], [[(1, Z), (2, Z)], [(6, Z), (7, Z)], [(1, X), (6, X)]])
     = Inr ([], [[(1, X), (6, X)], [(1, Z), (2, Z), (6, Z), (7, Z)]]) \<and>
   length (fst ([] :: stabilizer list, [[(1, X), (6, X)], [(1, Z), (2, Z), (6, Z), (7, Z)]] :: stab_set))
     < length ([[(1, Z), (2, Z)], [(6, Z), (7, Z)]] :: stabilizer list)"
proof -
  have c: "combine_stabilizers [(1, X), (6, X)] [(1, Z), (2, Z)] [(6, Z), (7, Z)]
     ([[(1, Z), (2, Z)], [(6, Z), (7, Z)]], [[(1, Z), (2, Z)], [(6, Z), (7, Z)], [(1, X), (6, X)]])
     = Inr ([], [[(1, X), (6, X)], [(1, Z), (2, Z), (6, Z), (7, Z)]])"
    by code_simp
  from adjust_stabilizers_terminates [of storage_order "init 4 4" "[[(1, X), (6, X)]]"
      "[[(1, Z), (2, Z)], [(6, Z), (7, Z)], [(1, X), (6, X)]]" "[(1, X), (6, X)]"
      "[[(1, Z), (2, Z)], [(6, Z), (7, Z)]]" "[(1, Z), (2, Z)]" "[(6, Z), (7, Z)]"] c
  show ?thesis by blast
qed

section \<open>Validation and the first time step\<close>

lemma measurement_stabilizer_time_step [simp]:
  "measurement_stabilizer (c\<lparr>time_step := t\<rparr>) = measurement_stabilizer c"
  by (simp add: fun_eq_iff measurement_stabilizer_def)

lemma build_stabilizers_time_step [simp]:
  "build_stabilizers (c\<lparr>time_step := t\<rparr>) ms acc = build_stabilizers c ms acc"
  by (induction ms arbitrary: acc) (auto split: sum.splits)

lemma manhattan_self: "manhattan c a a = 0"
  by (simp add: manhattan_def)

lemma valid_measurement_stabilizer:
  assumes "fst (is_valid_measurement c p)"
  shows "\<exists>t. (t = X \<or> t = Z) \<and> measurement_stabilizer c p = Inr [(fst p, t), (snd p, t)] \<and>
     fst p \<noteq> snd p \<and> in_grid c (fst p) \<and> in_grid c (snd p)"
proof -
  obtain a b where p: "p = (a, b)" by (cases p)
  from assms have g: "in_grid c a" "in_grid c b" and m: "manhattan c a b = 1"
    by (auto simp: p is_valid_measurement_eq split: if_splits)
  from m have ne: "a \<noteq> b"
    using manhattan_self [of c a] by auto
  from m have "(\<bar>int (row_of c a) - int (row_of c b)\<bar> = 1 \<and> col_of c a = col_of c b) \<or>
       (row_of c a = row_of c b \<and> \<bar>int (col_of c a) - int (col_of c b)\<bar> = 1)"
    unfolding manhattan_def by (simp only: abs_diff_cases)
  then have "get_measurement_type c (a, b) = Inr X \<or> get_measurement_type c (a, b) = Inr Z"
    using g by (auto simp: get_measurement_type_in_grid)
  with ne g show ?thesis
    by (auto simp: p measurement_stabilizer_def)
qed

lemma build_stabilizers_valid:
  assumes "\<forall>p \<in> set ms. fst (is_valid_measurement c p)"
  shows "\<exists>terms. map (measurement_stabilizer c) ms = map Inr terms \<and>
     build_stabilizers c ms acc = Inr (fold set_add terms (fst acc), snd acc @ terms)"
  using assms
proof (induction ms arbitrary: acc)
  case Nil
  then show ?case by simp
next
  case (Cons p ms)
  from Cons.prems obtain t where t: "measurement_stabilizer c p = Inr t"
    using valid_measurement_stabilizer [of c p] by auto
  from Cons.prems have "\<forall>p \<in> set ms. fst (is_valid_measurement c p)" by simp
  from Cons.IH [OF this, of "(set_add t (fst acc), snd acc @ [t])"]
  obtain terms where "map (measurement_stabilizer c) ms = map Inr terms"
    and "build_stabilizers c ms (set_add t (fst acc), snd acc @ [t])
       = Inr (fold set_add terms (set_add t (fst acc)), (snd acc @ [t]) @ terms)"
    by auto
  with t have "map (measurement_stabilizer c) (p # ms) = map Inr (t # terms) \<and>
     build_stabilizers c (p # ms) acc = Inr (fold set_add (t # terms) (fst acc), snd acc @ t # terms)"
    by simp
  then show ?case by blast
qed

lemma run_time_step_filter:
  "run_time_step ord c batch
     = run_time_step ord c (filter (\<lambda>p. fst (is_valid_measurement c p)) batch)"
proof -
  have v: "filter (\<lambda>p. fst (is_valid_measurement (c\<lparr>time_step := time_step c + 1\<rparr>) p)) xs
      = filter (\<lambda>p. fst (is_valid_measurement c p)) xs" for xs
    by simp
  have w: "filter (\<lambda>p. fst (is_valid_measurement c p)) (filter (\<lambda>p. fst (is_valid_measurement c p)) xs)
      = filter (\<lambda>p. fst (is_valid_measurement c p)) xs" for xs
    by simp
  show ?thesis
    unfolding run_time_step_def Let_def v w ..
qed

lemma run_time_step_current:
  "run_time_step ord c batch = Some (Inr c') \<Longrightarrow>
   current_measurements c' = filter (\<lambda>p. fst (is_valid_measurement c p)) batch"
  by (auto simp: run_time_step_def Let_def split: option.splits sum.splits)

text \<open>
  C9. \<^verbatim>\<open>is_valid_measurement\<close> rejects a pair with the out-of-range message when one of the
  two ids is not in the grid, with the not-adjacent message when both are and their
  Manhattan distance is not 1, and accepts it otherwise. A rejected pair changes nothing
  else: the time step on a batch is the time step on its accepted pairs, in their order,
  and those are what it records as the current measurements.
\<close>

theorem rejected_pairs_are_skipped:
  "is_valid_measurement c (a, b) =
     (if \<not> in_grid c a \<or> \<not> in_grid c b then (False, ''Qubit does not exist in the grid.'')
      else if manhattan c a b \<noteq> 1 then (False, ''Qubits are not adjacent.'')
      else (True, [])) \<and>
   run_time_step ord c batch
     = run_time_step ord c (filter (\<lambda>p. fst (is_valid_measurement c p)) batch) \<and>
   (\<forall>c'. run_time_step ord c batch = Some (Inr c') \<longrightarrow>
      current_measurements c' = filter (\<lambda>p. fst (is_valid_measurement c p)) batch)"
proof (intro conjI allI impI)
  show "is_valid_measurement c (a, b) =
     (if \<not> in_grid c a \<or> \<not> in_grid c b then (False, ''Qubit does not exist in the grid.'')
      else if manhattan c a b \<noteq> 1 then (False, ''Qubits are not adjacent.'')
      else (True, []))"
    by (simp add: is_valid_measurement_eq)
  show "run_time_step ord c batch
     = run_time_step ord c (filter (\<lambda>p. fst (is_valid_measurement c p)) batch)"
    by (rule run_time_step_filter)
next
  fix c' assume "run_time_step ord c batch = Some (Inr c')"
  then show "current_measurements c' = filter (\<lambda>p. fst (is_valid_measurement c p)) batch"
    by (rule run_time_step_current)
qed

theorem rejected_pairs_are_skipped_witness:
  "is_valid_measurement (init 4 4) (1, 3) = (False, ''Qubits are not adjacent.'') \<and>
   is_valid_measurement (init 4 4) (1, 999) = (False, ''Qubit does not exist in the grid.'') \<and>
   is_valid_measurement (init 4 4) (1, 2) = (True, []) \<and>
   run_time_step storage_order (init 4 4) [(1, 3), (1, 999), (1, 2)]
     = run_time_step storage_order (init 4 4) [(1, 2)] \<and>
   run_time_step storage_order (init 4 4) [(1, 3), (1, 999), (1, 2)]
     = Some (Inr \<lparr>rows = 4, cols = 4, stabilizer_generators = [[(1, Z), (2, Z)]], time_step = 1,
          prev_measurements = [], current_measurements = [(1, 2)], measurements_history = [[(1, 2)]],
          selected_edges = []\<rparr>)"
proof -
  have g: "\<not> in_grid (init 4 4) 999" "in_grid (init 4 4) 1" "in_grid (init 4 4) 2"
    "in_grid (init 4 4) 3" "manhattan (init 4 4) 1 3 \<noteq> 1" "manhattan (init 4 4) 1 2 = 1"
    by (simp_all add: in_grid_def init_def manhattan_def row_of_def col_of_def)
  have v1: "is_valid_measurement (init 4 4) (1, 3) = (False, ''Qubits are not adjacent.'')"
    using rejected_pairs_are_skipped [of "init 4 4" 1 3 storage_order "[]", THEN conjunct1] g
    by simp
  have v2: "is_valid_measurement (init 4 4) (1, 999) = (False, ''Qubit does not exist in the grid.'')"
    using rejected_pairs_are_skipped [of "init 4 4" 1 999 storage_order "[]", THEN conjunct1] g
    by simp
  have v3: "is_valid_measurement (init 4 4) (1, 2) = (True, [])"
    using rejected_pairs_are_skipped [of "init 4 4" 1 2 storage_order "[]", THEN conjunct1] g
    by simp
  have f: "filter (\<lambda>p. fst (is_valid_measurement (init 4 4) p)) [(1, 3), (1, 999), (1, 2)]
      = [(1, 2)]"
    by (simp add: v1 v2 v3)
  have r: "run_time_step storage_order (init 4 4) [(1, 3), (1, 999), (1, 2)]
      = run_time_step storage_order (init 4 4) [(1, 2)]"
    using rejected_pairs_are_skipped [of "init 4 4" 1 2 storage_order "[(1, 3), (1, 999), (1, 2)]",
        THEN conjunct2, THEN conjunct1]
    unfolding f .
  have e: "run_time_step storage_order (init 4 4) [(1, 2)]
     = Some (Inr \<lparr>rows = 4, cols = 4, stabilizer_generators = [[(1, Z), (2, Z)]], time_step = 1,
          prev_measurements = [], current_measurements = [(1, 2)], measurements_history = [[(1, 2)]],
          selected_edges = []\<rparr>)"
    by code_simp
  show ?thesis
    unfolding r e using v1 v2 v3 by (intro conjI) (rule v1 v2 v3 refl)+
qed

lemma stab_eq_refl: "wf_dict s \<Longrightarrow> stab_eq s s"
  by (simp add: stab_eq_iff)

lemma stab_eq_sym: "wf_dict s \<Longrightarrow> wf_dict t \<Longrightarrow> stab_eq s t \<Longrightarrow> stab_eq t s"
  by (simp add: stab_eq_iff)

lemma stab_eq_subset: "stab_eq s t \<Longrightarrow> set s \<subseteq> set t"
proof
  fix kv assume "stab_eq s t" and "kv \<in> set s"
  then have "map_of t (fst kv) = Some (snd kv)"
    by (auto simp: stab_eq_def list_all_iff dict_get_def)
  then have "(fst kv, snd kv) \<in> set t" by (rule map_of_SomeD)
  then show "kv \<in> set t" by simp
qed

lemma set_set_add: "set (set_add x S) \<subseteq> insert x (set S)"
  by (auto simp: set_add_def)

lemma set_add_keeps: "set S \<subseteq> set (set_add x S)"
  by (auto simp: set_add_def)

lemma set_contains_set_add: "wf_dict x \<Longrightarrow> set_contains (set_add x S) x"
  by (auto simp: set_add_def set_contains_def list_ex_iff stab_eq_refl)

lemma set_contains_mono: "set S \<subseteq> set T \<Longrightarrow> set_contains S x \<Longrightarrow> set_contains T x"
  by (auto simp: set_contains_def list_ex_iff)

lemma set_fold_set_add: "set (fold set_add ts S) \<subseteq> set S \<union> set ts"
proof (induction ts arbitrary: S)
  case Nil
  then show ?case by simp
next
  case (Cons t ts)
  from Cons.IH [of "set_add t S"] set_set_add [of t S] show ?case by auto
qed

lemma fold_set_add_keeps: "set S \<subseteq> set (fold set_add ts S)"
proof (induction ts arbitrary: S)
  case Nil
  then show ?case by simp
next
  case (Cons t ts)
  from Cons.IH [of "set_add t S"] set_add_keeps [of S t] show ?case by auto
qed

lemma fold_set_add_contains:
  "\<forall>t \<in> set ts. wf_dict t \<Longrightarrow> t \<in> set ts \<Longrightarrow> set_contains (fold set_add ts S) t"
proof (induction ts arbitrary: S)
  case Nil
  then show ?case by simp
next
  case (Cons u ts)
  show ?case
  proof (cases "t = u")
    case True
    with Cons.prems have "set_contains (set_add u S) t"
      by (simp add: set_contains_set_add)
    then show ?thesis
      using fold_set_add_keeps [of "set_add u S" ts] by (auto intro: set_contains_mono)
  next
    case False
    with Cons show ?thesis by simp
  qed
qed

lemma no_duplicates_append:
  "no_duplicates (S @ [x]) \<longleftrightarrow>
   no_duplicates S \<and> (\<forall>y \<in> set S. \<not> stab_eq y x \<and> \<not> stab_eq x y)"
  by (induction S) (auto simp: list_all_iff)

lemma no_duplicates_set_add:
  assumes "no_duplicates S" and "wf_dict x" and "\<forall>y \<in> set S. wf_dict y"
  shows "no_duplicates (set_add x S)"
proof (cases "set_contains S x")
  case True
  with assms show ?thesis by (simp add: set_add_def)
next
  case False
  then have "\<forall>y \<in> set S. \<not> stab_eq y x"
    by (simp add: set_contains_def list_ex_iff)
  moreover from this assms have "\<forall>y \<in> set S. \<not> stab_eq x y"
    by (blast dest: stab_eq_sym)
  ultimately show ?thesis
    using False assms(1) by (simp add: set_add_def no_duplicates_append)
qed

lemma no_duplicates_fold_set_add:
  assumes "no_duplicates S" and "\<forall>t \<in> set ts. wf_dict t" and "\<forall>y \<in> set S. wf_dict y"
  shows "no_duplicates (fold set_add ts S)"
  using assms
proof (induction ts arbitrary: S)
  case Nil
  then show ?case by simp
next
  case (Cons t ts)
  have "no_duplicates (set_add t S)"
    using Cons.prems by (simp add: no_duplicates_set_add)
  moreover have "\<forall>y \<in> set (set_add t S). wf_dict y"
    using Cons.prems set_set_add [of t S] by auto
  ultimately show ?case
    using Cons.IH [of "set_add t S"] Cons.prems by simp
qed

text \<open>
  C8. On a code object that has run no time step yet, the time step returns, and its
  generator set is the set of the terms built from the valid pairs of the batch (all of
  the batch, when every pair is valid), added one by one: every generator is one of these
  terms, every term is equal to a generator, and no two generators are equal. Nothing is
  resolved or simplified.
\<close>

theorem first_time_step_generators:
  assumes "time_step c = 0"
  shows "\<exists>c' terms.
     run_time_step ord c batch = Some (Inr c') \<and>
     map (measurement_stabilizer c) (filter (\<lambda>p. fst (is_valid_measurement c p)) batch)
       = map Inr terms \<and>
     stabilizer_generators c' = fold set_add terms [] \<and>
     set (stabilizer_generators c') \<subseteq> set terms \<and>
     (\<forall>t \<in> set terms. set_contains (stabilizer_generators c') t) \<and>
     no_duplicates (stabilizer_generators c')"
proof -
  let ?valid = "filter (\<lambda>p. fst (is_valid_measurement c p)) batch"
  let ?c1 = "c\<lparr>time_step := time_step c + 1\<rparr>"
  have all: "\<forall>p \<in> set ?valid. fst (is_valid_measurement c p)" by simp
  from build_stabilizers_valid [OF all, of "([], [])"]
  obtain terms where m: "map (measurement_stabilizer c) ?valid = map Inr terms"
    and b: "build_stabilizers c ?valid ([], []) = Inr (fold set_add terms [], terms)"
    by auto
  have wf: "\<forall>t \<in> set terms. wf_dict t"
  proof
    fix t assume "t \<in> set terms"
    then have "Inr t \<in> set (map (measurement_stabilizer c) ?valid)"
      unfolding m by simp
    then obtain p where "fst (is_valid_measurement c p)" and "measurement_stabilizer c p = Inr t"
      by auto
    then show "wf_dict t"
      using valid_measurement_stabilizer [of c p] by (auto simp: wf_dict_def)
  qed
  have u: "update_stabilizers ord ?c1 ?valid
      = Some (Inr (?c1\<lparr>stabilizer_generators := fold set_add terms []\<rparr>))"
    using assms b by (simp add: update_stabilizers_def)
  have v: "filter (\<lambda>p. fst (is_valid_measurement ?c1 p)) batch = ?valid"
    by simp
  have "run_time_step ord c batch
      = Some (Inr (?c1\<lparr>stabilizer_generators := fold set_add terms [],
            current_measurements := ?valid,
            measurements_history := measurements_history c @ [?valid],
            selected_edges := []\<rparr>))"
    unfolding run_time_step_def Let_def v u by simp
  moreover have "set (fold set_add terms []) \<subseteq> set terms"
    using set_fold_set_add [of terms "[]"] by simp
  moreover have "\<forall>t \<in> set terms. set_contains (fold set_add terms []) t"
    using wf by (simp add: fold_set_add_contains)
  moreover have "no_duplicates (fold set_add terms [])"
    using wf by (simp add: no_duplicates_fold_set_add)
  ultimately show ?thesis
    using m by auto
qed



theorem first_time_step_generators_witness:
  "time_step (init 4 4) = 0 \<and>
   run_time_step storage_order (init 4 4) [(1, 2), (7, 12), (2, 1), (1, 3)]
     = Some (Inr \<lparr>rows = 4, cols = 4,
          stabilizer_generators = [[(1, Z), (2, Z)], [(7, X), (12, X)]], time_step = 1,
          prev_measurements = [], current_measurements = [(1, 2), (7, 12), (2, 1)],
          measurements_history = [[(1, 2), (7, 12), (2, 1)]], selected_edges = []\<rparr>) \<and>
   map (measurement_stabilizer (init 4 4))
       (filter (\<lambda>p. fst (is_valid_measurement (init 4 4) p)) [(1, 2), (7, 12), (2, 1), (1, 3)])
     = map Inr [[(1, Z), (2, Z)], [(7, X), (12, X)], [(2, Z), (1, Z)]] \<and>
   fold set_add [[(1, Z), (2, Z)], [(7, X), (12, X)], [(2, Z), (1, Z)]] []
     = [[(1, Z), (2, Z)], [(7, X), (12, X)]] \<and>
   no_duplicates [[(1, Z), (2, Z)], [(7, X), (12, X)]]"
proof -
  have t0: "time_step (init 4 4) = 0" by (simp add: init_def)
  have r: "run_time_step storage_order (init 4 4) [(1, 2), (7, 12), (2, 1), (1, 3)]
     = Some (Inr \<lparr>rows = 4, cols = 4,
          stabilizer_generators = [[(1, Z), (2, Z)], [(7, X), (12, X)]], time_step = 1,
          prev_measurements = [], current_measurements = [(1, 2), (7, 12), (2, 1)],
          measurements_history = [[(1, 2), (7, 12), (2, 1)]], selected_edges = []\<rparr>)"
    by code_simp
  have m: "map (measurement_stabilizer (init 4 4))
       (filter (\<lambda>p. fst (is_valid_measurement (init 4 4) p)) [(1, 2), (7, 12), (2, 1), (1, 3)])
     = map Inr [[(1, Z), (2, Z)], [(7, X), (12, X)], [(2, Z), (1, Z)]]"
    by code_simp
  have f: "fold set_add [[(1, Z), (2, Z)], [(7, X), (12, X)], [(2, Z), (1, Z)]] []
     = [[(1, Z), (2, Z)], [(7, X), (12, X)]]"
    by code_simp
  from first_time_step_generators [OF t0, of storage_order "[(1, 2), (7, 12), (2, 1), (1, 3)]"]
  obtain c' where
    c': "run_time_step storage_order (init 4 4) [(1, 2), (7, 12), (2, 1), (1, 3)] = Some (Inr c')"
    and nd: "no_duplicates (stabilizer_generators c')"
    by blast
  from c' have "stabilizer_generators c' = [[(1, Z), (2, Z)], [(7, X), (12, X)]]"
    unfolding r by auto
  with nd have "no_duplicates [[(1, Z), (2, Z)], [(7, X), (12, X)]]"
    by simp
  with t0 r m f show ?thesis by blast
qed

section \<open>Simplification\<close>

lemma order_ok_set: "order_ok ord \<Longrightarrow> set (ord S) = set S"
  unfolding order_ok_def by (metis set_mset_mset)

lemma order_ok_distinct: "order_ok ord \<Longrightarrow> distinct (ord S) = distinct S"
  unfolding order_ok_def by (metis mset_eq_imp_distinct_iff)

lemma order_ok_storage: "order_ok storage_order"
  by (simp add: order_ok_def storage_order_def)

lemma fold_reduce_by_none:
  "\<forall>r \<in> set rs. \<not> set r \<subseteq> set stab \<Longrightarrow> fold reduce_by rs stab = stab"
  by (induction rs) (auto simp: reduce_by_def)

lemma simplify_step_keeps:
  assumes "order_ok ord" and "stab \<noteq> []"
    and "\<forall>r \<in> set S. \<not> set r \<subseteq> set stab"
  shows "simplify_step ord stab S = S @ [stab]"
proof -
  have "fold reduce_by (ord S) stab = stab"
    using assms(1,3) by (simp add: fold_reduce_by_none order_ok_set)
  moreover have "\<not> set_contains S stab"
    using assms(3) by (auto simp: set_contains_def list_ex_iff dest: stab_eq_subset)
  ultimately show ?thesis
    using assms(2) by (simp add: simplify_step_def is_trivial_def set_add_def)
qed

lemma fold_simplify_step_keeps:
  assumes "order_ok ord" and "\<forall>g \<in> set (S @ ys). g \<noteq> []" and "no_subsets (S @ ys)"
  shows "fold (simplify_step ord) ys S = S @ ys"
  using assms(2,3)
proof (induction ys arbitrary: S)
  case Nil
  then show ?case by simp
next
  case (Cons y ys)
  have "\<forall>r \<in> set S. \<not> set r \<subseteq> set y"
    using Cons.prems(2) unfolding no_subsets_def by auto
  moreover have "y \<noteq> []" using Cons.prems(1) by simp
  ultimately have "simplify_step ord y S = S @ [y]"
    using assms(1) by (simp add: simplify_step_keeps)
  moreover have "fold (simplify_step ord) ys (S @ [y]) = (S @ [y]) @ ys"
    using Cons.prems by (intro Cons.IH) simp_all
  ultimately show ?case by simp
qed

lemma no_subsets_mset: "mset xs = mset ys \<Longrightarrow> no_subsets xs \<Longrightarrow> no_subsets ys"
  unfolding no_subsets_def
  by (metis mset_eq_imp_distinct_iff set_mset_mset)

lemma simplify_no_subsets:
  assumes "order_ok ord" and "\<forall>g \<in> set gens. g \<noteq> []" and "no_subsets gens"
  shows "simplify_stabilizers ord gens = sort_key length (ord gens)"
proof -
  let ?L = "sort_key length (ord gens)"
  have m: "mset ?L = mset gens"
    using assms(1) by (simp add: order_ok_def)
  then have "set ?L = set gens" by (metis set_mset_mset)
  with assms(2) have "\<forall>g \<in> set ([] @ ?L). g \<noteq> []" by simp
  moreover have "no_subsets ([] @ ?L)"
    using no_subsets_mset [OF m [symmetric] assms(3)] by simp
  ultimately have "fold (simplify_step ord) ?L [] = [] @ ?L"
    by (rule fold_simplify_step_keeps [OF assms(1)])
  then show ?thesis by (simp add: simplify_stabilizers_def)
qed




section \<open>The two-step scenario\<close>

text \<open>
  C1, as stated, fails in its second half. In step 2 the measurement X on \<open>(1, 6)\<close>
  anti-commutes with \<open>Z1 Z2\<close> and with \<open>Z6 Z7\<close> (each meets it in one qubit); both lie in
  the columns 0 and 1, so they are combined into \<open>Z1 Z2 Z6 Z7\<close>; likewise \<open>Z3 Z4\<close> and
  \<open>Z8 Z9\<close> for the measurement on \<open>(3, 8)\<close>. Six generators remain, not eight, and none of
  the four generators of step 1 is among them.
\<close>

theorem two_step_scenario_counterexample:
  "run_schedule storage_order (init 4 4)
     [[(1, 2), (3, 4), (6, 7), (8, 9)], [(1, 6), (2, 7), (3, 8), (4, 9)]]
   = Some (Inr \<lparr>rows = 4, cols = 4,
        stabilizer_generators =
          [[(1, X), (6, X)], [(2, X), (7, X)], [(3, X), (8, X)], [(4, X), (9, X)],
           [(1, Z), (2, Z), (6, Z), (7, Z)], [(3, Z), (4, Z), (8, Z), (9, Z)]],
        time_step = 2, prev_measurements = [],
        current_measurements = [(1, 6), (2, 7), (3, 8), (4, 9)],
        measurements_history =
          [[(1, 2), (3, 4), (6, 7), (8, 9)], [(1, 6), (2, 7), (3, 8), (4, 9)]],
        selected_edges = []\<rparr>) \<and>
   length [[(1, X), (6, X)], [(2, X), (7, X)], [(3, X), (8, X)], [(4, X), (9, X)],
           [(1, Z), (2, Z), (6, Z), (7, Z)], [(3, Z), (4, Z), (8, Z), (9, Z)] :: stabilizer] \<noteq> 8 \<and>
   \<not> set_contains
       [[(1, X), (6, X)], [(2, X), (7, X)], [(3, X), (8, X)], [(4, X), (9, X)],
        [(1, Z), (2, Z), (6, Z), (7, Z)], [(3, Z), (4, Z), (8, Z), (9, Z)]] [(1, Z), (2, Z)]"
  by code_simp

section \<open>Generators that the tool can hold\<close>

text \<open>
  What every generator of a run is: a dictionary (distinct keys) that is not empty and
  whose qubits are ids of the grid.
\<close>

definition good_stab :: "bacon_shor_code \<Rightarrow> stabilizer \<Rightarrow> bool" where
  "good_stab c g = (wf_dict g \<and> g \<noteq> [] \<and> (\<forall>q \<in> set (map fst g). in_grid c q))"

lemma in_grid_update [simp]:
  "in_grid (c\<lparr>time_step := t\<rparr>) = in_grid c"
  "in_grid (c\<lparr>stabilizer_generators := gs\<rparr>) = in_grid c"
  "in_grid (c\<lparr>current_measurements := ms\<rparr>) = in_grid c"
  "in_grid (c\<lparr>measurements_history := h\<rparr>) = in_grid c"
  "in_grid (c\<lparr>selected_edges := es\<rparr>) = in_grid c"
  by (simp_all add: fun_eq_iff in_grid_def)

lemma good_stab_update [simp]:
  "good_stab (c\<lparr>time_step := t\<rparr>) = good_stab c"
  "good_stab (c\<lparr>stabilizer_generators := gs\<rparr>) = good_stab c"
  "good_stab (c\<lparr>current_measurements := ms\<rparr>) = good_stab c"
  "good_stab (c\<lparr>measurements_history := h\<rparr>) = good_stab c"
  "good_stab (c\<lparr>selected_edges := es\<rparr>) = good_stab c"
  by (simp_all add: fun_eq_iff good_stab_def)

lemma keys_multiply_step:
  "set (map fst (multiply_step qop d)) \<subseteq> insert (fst qop) (set (map fst d))"
  unfolding multiply_step_def
  using keys_dict_del [of d "fst qop"] keys_dict_set [of d "fst qop"]
  by (auto split: option.splits)

lemma keys_fold_multiply_step:
  "set (map fst (fold multiply_step other d)) \<subseteq> set (map fst d) \<union> set (map fst other)"
proof (induction other arbitrary: d)
  case Nil
  then show ?case by simp
next
  case (Cons qop other)
  from Cons.IH [of "multiply_step qop d"] keys_multiply_step [of qop d]
  show ?case by auto
qed

lemma keys_multiply:
  "set (map fst (multiply s t)) \<subseteq> set (map fst s) \<union> set (map fst t)"
  unfolding multiply_def by (rule keys_fold_multiply_step)

lemma good_stab_multiply:
  assumes "good_stab c s" and "good_stab c t" and "multiply s t \<noteq> []"
  shows "good_stab c (multiply s t)"
proof -
  have k: "set (map fst (multiply s t)) \<subseteq> set (map fst s) \<union> set (map fst t)"
    by (rule keys_multiply)
  have "\<forall>q \<in> set (map fst (multiply s t)). in_grid c q"
  proof
    fix q assume "q \<in> set (map fst (multiply s t))"
    with k have "q \<in> set (map fst s) \<or> q \<in> set (map fst t)" by blast
    with assms(1,2) show "in_grid c q" unfolding good_stab_def by blast
  qed
  moreover have "wf_dict (multiply s t)"
    using assms(1) by (simp add: good_stab_def wf_multiply)
  ultimately show ?thesis
    using assms(3) unfolding good_stab_def by blast
qed

lemma good_measurement_stabilizer:
  assumes "fst (is_valid_measurement c p)" and "measurement_stabilizer c p = Inr t"
  shows "good_stab c t"
  using valid_measurement_stabilizer [OF assms(1)] assms(2)
  by (auto simp: good_stab_def wf_dict_def)

lemma set_set_discard: "set (set_discard x S) \<subseteq> set S"
  by (auto simp: set_discard_def)

lemma set_fold_set_discard: "set (fold set_discard xs S) \<subseteq> set S"
proof (induction xs arbitrary: S)
  case Nil
  then show ?case by simp
next
  case (Cons x xs)
  from Cons.IH [of "set_discard x S"] set_set_discard [of x S] show ?case by auto
qed

lemma set_union_update_subset:
  "order_ok ord \<Longrightarrow> set (set_union_update ord S T) \<subseteq> set S \<union> set T"
  unfolding set_union_update_def
  using set_fold_set_add [of "ord T" S] by (simp add: order_ok_set)

lemma first_value_nonempty: "s \<noteq> [] \<Longrightarrow> \<exists>t. first_value s = Inr t"
  by (cases s) (simp_all add: first_value_def)

lemma measurement_of_nonempty: "s \<noteq> [] \<Longrightarrow> \<exists>m. measurement_of s = Inr m"
  using first_value_nonempty [of s] by (auto simp: measurement_of_def)

lemma anti_commuting_stabs_good:
  assumes "order_ok ord" and "meas_stab \<noteq> []"
  shows "\<exists>A. anti_commuting_stabs ord meas_stab gens = Inr A \<and> set A \<subseteq> set gens"
proof -
  from assms(2) obtain m where "measurement_of meas_stab = Inr m"
    using measurement_of_nonempty by blast
  then show ?thesis
    using assms(1) by (auto simp: anti_commuting_stabs_def order_ok_set)
qed

lemma coordinates_in_grid:
  "\<forall>q \<in> set qs. in_grid c q \<Longrightarrow> \<exists>ps. coordinates c k qs = Inr ps"
  by (induction qs) (auto simp: get_qubit_position_def argwhere_in_grid)

lemma span_fits_good:
  assumes "good_stab c s1" and "good_stab c s2"
  shows "\<exists>b. span_fits c t s1 s2 = Inr b"
proof -
  from assms have g: "\<forall>q \<in> set (map fst s1). in_grid c q" "\<forall>q \<in> set (map fst s2). in_grid c q"
    by (simp_all add: good_stab_def)
  from coordinates_in_grid [OF g(1)] coordinates_in_grid [OF g(2)]
  obtain a1 a2 b1 b2 where "coordinates c snd (map fst s1) = Inr a1"
    "coordinates c snd (map fst s2) = Inr a2" "coordinates c fst (map fst s1) = Inr b1"
    "coordinates c fst (map fst s2) = Inr b2"
    by metis
  then show ?thesis by (auto simp: span_fits_def)
qed

lemma scan_inner_good:
  assumes "good_stab c s1" and "\<forall>s \<in> set rest. good_stab c s"
  shows "\<exists>r. scan_inner c s1 t rest = Inr r \<and> (\<forall>s2. r = Some s2 \<longrightarrow> s2 \<in> set rest)"
  using assms(2)
proof (induction rest)
  case Nil
  then show ?case by simp
next
  case (Cons s2 rest)
  then have g2: "good_stab c s2" and IH: "\<exists>r. scan_inner c s1 t rest = Inr r \<and>
      (\<forall>s. r = Some s \<longrightarrow> s \<in> set rest)"
    by simp_all
  from g2 obtain t2 where t2: "first_value s2 = Inr t2"
    using first_value_nonempty [of s2] by (auto simp: good_stab_def)
  from span_fits_good [OF assms(1) g2] obtain b where b: "span_fits c t s1 s2 = Inr b"
    by blast
  from IH obtain r where r: "scan_inner c s1 t rest = Inr r"
    and rs: "\<forall>s. r = Some s \<longrightarrow> s \<in> set rest"
    by blast
  show ?case
    using t2 b r rs by (cases b) auto
qed

lemma scan_outer_good:
  assumes "\<forall>s \<in> set A. good_stab c s"
  shows "\<exists>r. scan_outer c A = Inr r \<and>
     (\<forall>s1 s2. r = Some (s1, s2) \<longrightarrow> (\<exists>pre post. A = pre @ s1 # post \<and> s2 \<in> set post))"
  using assms
proof (induction A)
  case Nil
  then show ?case by simp
next
  case (Cons s1 rest)
  then have g1: "good_stab c s1" and gr: "\<forall>s \<in> set rest. good_stab c s" by simp_all
  from g1 obtain t where t: "first_value s1 = Inr t"
    using first_value_nonempty [of s1] by (auto simp: good_stab_def)
  from scan_inner_good [OF g1 gr, of t] obtain ri where ri: "scan_inner c s1 t rest = Inr ri"
    and ris: "\<forall>s2. ri = Some s2 \<longrightarrow> s2 \<in> set rest"
    by blast
  show ?case
  proof (cases ri)
    case None
    from Cons.IH [OF gr] obtain r where r: "scan_outer c rest = Inr r"
      and rs: "\<forall>a b. r = Some (a, b) \<longrightarrow> (\<exists>pre post. rest = pre @ a # post \<and> b \<in> set post)"
      by blast
    have "\<forall>a b. r = Some (a, b) \<longrightarrow> (\<exists>pre post. s1 # rest = pre @ a # post \<and> b \<in> set post)"
    proof (intro allI impI)
      fix a b assume "r = Some (a, b)"
      with rs obtain pre post where "rest = pre @ a # post" and "b \<in> set post" by blast
      then have "s1 # rest = (s1 # pre) @ a # post \<and> b \<in> set post" by simp
      then show "\<exists>pre post. s1 # rest = pre @ a # post \<and> b \<in> set post" by blast
    qed
    with t ri None r show ?thesis by simp
  next
    case (Some s2)
    with ris have "s2 \<in> set rest" by simp
    then have "s1 # rest = [] @ s1 # rest \<and> s2 \<in> set rest" by simp
    then have "\<exists>pre post. s1 # rest = pre @ s1 # post \<and> s2 \<in> set post" by blast
    with t ri Some show ?thesis by simp
  qed
qed

lemma list_remove_subset: "list_remove x xs = Inr ys \<Longrightarrow> set ys \<subseteq> set xs"
  by (induction xs arbitrary: ys) (auto split: if_splits sum.splits)

lemma list_remove_present:
  assumes "stab_eq s1 x"
  shows "\<exists>ys. list_remove x (pre @ s1 # post) = Inr ys \<and> set post \<subseteq> set ys"
proof (induction pre)
  case Nil
  with assms show ?case by simp
next
  case (Cons y pre)
  then obtain ys where "list_remove x (pre @ s1 # post) = Inr ys" and "set post \<subseteq> set ys"
    by blast
  then show ?case by auto
qed

definition good_set :: "bacon_shor_code \<Rightarrow> stabilizer list \<Rightarrow> bool" where
  "good_set c S = (\<forall>g \<in> set S. good_stab c g)"

lemma good_set_subset: "good_set c S \<Longrightarrow> set T \<subseteq> set S \<Longrightarrow> good_set c T"
  unfolding good_set_def by blast

lemma good_set_set_add: "good_set c S \<Longrightarrow> good_stab c x \<Longrightarrow> good_set c (set_add x S)"
  using set_set_add [of x S] unfolding good_set_def by blast

lemma good_set_append: "good_set c S \<Longrightarrow> good_stab c x \<Longrightarrow> good_set c (S @ [x])"
  unfolding good_set_def by auto

lemma good_stab_refl: "good_stab c s \<Longrightarrow> stab_eq s s"
  by (simp add: good_stab_def stab_eq_refl)

lemma combine_stabilizers_good:
  assumes A: "good_set c A" and G: "good_set c gens" and m: "meas_stab \<noteq> []"
    and split: "A = pre @ s1 # post" and s2: "s2 \<in> set post"
  shows "\<exists>st'. combine_stabilizers meas_stab s1 s2 (A, gens) = Inr st' \<and>
     good_set c (fst st') \<and> good_set c (snd st')"
proof -
  have g1: "good_stab c s1" and g2: "good_stab c s2"
    using A split s2 by (auto simp: good_set_def)
  from list_remove_present [OF good_stab_refl [OF g1], of pre post]
  obtain A1 where A1: "list_remove s1 A = Inr A1" and post: "set post \<subseteq> set A1"
    unfolding split by blast
  from post s2 obtain pre' post' where "A1 = pre' @ s2 # post'"
    by (meson split_list subsetD)
  with list_remove_present [OF good_stab_refl [OF g2], of pre' post']
  obtain A2 where A2: "list_remove s2 A1 = Inr A2" by blast
  have "set A2 \<subseteq> set A"
    using list_remove_subset [OF A1] list_remove_subset [OF A2] by blast
  with A have gA2: "good_set c A2" by (rule good_set_subset)
  let ?gens1 = "set_discard s2 (set_discard s1 gens)"
  have "set ?gens1 \<subseteq> set gens"
    using set_set_discard [of s2 "set_discard s1 gens"] set_set_discard [of s1 gens] by blast
  with G have gg1: "good_set c ?gens1" by (rule good_set_subset)
  from m obtain mm where mm: "measurement_of meas_stab = Inr mm"
    using measurement_of_nonempty by blast
  show ?thesis
  proof (cases "is_trivial (multiply s1 s2)")
    case True
    then have "combine_stabilizers meas_stab s1 s2 (A, gens) = Inr (A2, ?gens1)"
      by (simp add: combine_stabilizers_def A1 A2 Let_def)
    with gA2 gg1 show ?thesis by simp
  next
    case False
    then have gc: "good_stab c (multiply s1 s2)"
      using g1 g2 by (simp add: good_stab_multiply is_trivial_def)
    have gens3: "good_set c (set_add (multiply s1 s2) ?gens1)"
      using gg1 gc by (rule good_set_set_add)
    show ?thesis
    proof (cases "commutes_with (multiply s1 s2) mm")
      case True
      with False have "combine_stabilizers meas_stab s1 s2 (A, gens)
          = Inr (A2, set_add (multiply s1 s2) ?gens1)"
        by (simp add: combine_stabilizers_def A1 A2 mm Let_def)
      with gA2 gens3 show ?thesis by simp
    next
      case nc: False
      with False have "combine_stabilizers meas_stab s1 s2 (A, gens)
          = Inr (A2 @ [multiply s1 s2], set_add (multiply s1 s2) ?gens1)"
        by (simp add: combine_stabilizers_def A1 A2 mm Let_def)
      moreover have "good_set c (A2 @ [multiply s1 s2])"
        using gA2 gc by (rule good_set_append)
      ultimately show ?thesis using gens3 by simp
    qed
  qed
qed

lemma resolve_loop_good:
  assumes "meas_stab \<noteq> []"
  shows "good_set c (fst st) \<Longrightarrow> good_set c (snd st) \<Longrightarrow>
     \<exists>st'. resolve_loop c meas_stab st = Some (Inr st') \<and>
       good_set c (fst st') \<and> good_set c (snd st')"
proof (induction "length (fst st)" arbitrary: st rule: less_induct)
  case less
  from scan_outer_good [of "fst st" c] less.prems(1)
  obtain r where r: "scan_outer c (fst st) = Inr r"
    and rs: "\<forall>s1 s2. r = Some (s1, s2) \<longrightarrow>
       (\<exists>pre post. fst st = pre @ s1 # post \<and> s2 \<in> set post)"
    unfolding good_set_def by blast
  show ?case
  proof (cases r)
    case None
    with r have "resolve_loop c meas_stab st = Some (Inr st)"
      by (subst resolve_loop.simps) simp
    with less.prems show ?thesis by simp
  next
    case (Some pair)
    obtain s1 s2 where pair: "pair = (s1, s2)" by (cases pair)
    with rs Some obtain pre post where sp: "fst st = pre @ s1 # post" and s2: "s2 \<in> set post"
      by blast
    from combine_stabilizers_good [OF less.prems(1) less.prems(2) assms sp s2]
    obtain st' where c: "combine_stabilizers meas_stab s1 s2 st = Inr st'"
      and g: "good_set c (fst st')" "good_set c (snd st')"
      by auto
    from c have "length (fst st') < length (fst st)"
      by (simp add: combine_stabilizers_length)
    from less.hyps [OF this g] obtain st'' where
      "resolve_loop c meas_stab st' = Some (Inr st'')"
      and g'': "good_set c (fst st'')" "good_set c (snd st'')"
      by blast
    with r Some pair c have "resolve_loop c meas_stab st = Some (Inr st'')"
      by (subst resolve_loop.simps) simp
    with g'' show ?thesis by simp
  qed
qed

lemma adjust_stabilizers_good:
  assumes "order_ok ord" and "\<forall>m \<in> set ms. m \<noteq> []" and "good_set c gens"
  shows "\<exists>gens'. adjust_stabilizers ord c ms gens = Some (Inr gens') \<and> good_set c gens'"
  using assms(2,3)
proof (induction ms arbitrary: gens)
  case Nil
  then show ?case by simp
next
  case (Cons m ms)
  then have m: "m \<noteq> []" and ms: "\<forall>m \<in> set ms. m \<noteq> []" by simp_all
  from anti_commuting_stabs_good [OF assms(1) m, of gens]
  obtain A where A: "anti_commuting_stabs ord m gens = Inr A" and sub: "set A \<subseteq> set gens"
    by blast
  have gA: "good_set c (fst (A, gens))" "good_set c (snd (A, gens))"
    using Cons.prems(2) sub by (auto intro: good_set_subset)
  from resolve_loop_good [OF m gA]
  obtain st' where r: "resolve_loop c m (A, gens) = Some (Inr st')"
    and g': "good_set c (snd st')"
    by blast
  have "good_set c (fold set_discard (fst st') (snd st'))"
    using g' set_fold_set_discard [of "fst st'" "snd st'"] by (rule good_set_subset)
  from Cons.IH [OF ms this] A r show ?case by simp
qed

section \<open>What the simplification guarantees\<close>

lemma wf_dict_member: "wf_dict d \<Longrightarrow> (k, v) \<in> set d \<longleftrightarrow> dict_get d k = Some v"
  unfolding wf_dict_def dict_get_def by (auto dest: map_of_SomeD)

lemma set_multiply_subset:
  assumes "wf_dict g" and "wf_dict r" and "set r \<subseteq> set g"
  shows "set (multiply g r) \<subseteq> set g"
proof
  fix kv assume "kv \<in> set (multiply g r)"
  moreover obtain k v where kv: "kv = (k, v)" by (cases kv)
  moreover have "wf_dict (multiply g r)" using assms(1) by (rule wf_multiply)
  ultimately have "dict_get (multiply g r) k = Some v"
    by (simp add: wf_dict_member)
  then have c: "combine (dict_get g k) (dict_get r k) = Some v"
    using assms(2) by (simp add: dict_get_multiply)
  show "kv \<in> set g"
  proof (cases "dict_get r k")
    case None
    with c have "dict_get g k = Some v" by (simp add: combine_def)
    with assms(1) kv show ?thesis by (simp add: wf_dict_member)
  next
    case (Some w)
    with assms(2) have "(k, w) \<in> set r" by (simp add: wf_dict_member)
    with assms(3) have "(k, w) \<in> set g" by blast
    with assms(1) have "dict_get g k = Some w" by (simp add: wf_dict_member)
    with Some c show ?thesis by (simp add: combine_def)
  qed
qed

lemma multiply_subset_drops:
  assumes "wf_dict g" and "wf_dict r" and "set r \<subseteq> set g" and "r \<noteq> []"
  shows "\<not> set r \<subseteq> set (multiply g r)"
proof
  assume sub: "set r \<subseteq> set (multiply g r)"
  from assms(4) obtain k v where kv: "(k, v) \<in> set r" by (cases r) auto
  with assms(3) have "(k, v) \<in> set g" by blast
  with assms(1) have "dict_get g k = Some v" by (simp add: wf_dict_member)
  moreover from kv assms(2) have "dict_get r k = Some v" by (simp add: wf_dict_member)
  ultimately have "dict_get (multiply g r) k = None"
    using assms(2) by (simp add: dict_get_multiply combine_def)
  moreover have "wf_dict (multiply g r)" using assms(1) by (rule wf_multiply)
  moreover from kv sub have "(k, v) \<in> set (multiply g r)" by blast
  ultimately show False by (simp add: wf_dict_member)
qed

lemma reduce_by_props:
  assumes "wf_dict g" and "wf_dict r"
  shows "wf_dict (reduce_by r g)" and "set (reduce_by r g) \<subseteq> set g"
    and "r \<noteq> [] \<Longrightarrow> \<not> set r \<subseteq> set (reduce_by r g)"
  using assms wf_multiply [of g r] set_multiply_subset [of g r] multiply_subset_drops [of g r]
  by (auto simp: reduce_by_def)

lemma fold_reduce_by_props:
  assumes "wf_dict stab" and "\<forall>r \<in> set rs. wf_dict r \<and> r \<noteq> []"
  shows "wf_dict (fold reduce_by rs stab) \<and> set (fold reduce_by rs stab) \<subseteq> set stab \<and>
     (\<forall>r \<in> set rs. \<not> set r \<subseteq> set (fold reduce_by rs stab))"
  using assms
proof (induction rs arbitrary: stab)
  case Nil
  then show ?case by simp
next
  case (Cons r rs)
  then have r: "wf_dict r" "r \<noteq> []" and rs: "\<forall>r \<in> set rs. wf_dict r \<and> r \<noteq> []"
    by simp_all
  let ?g = "reduce_by r stab"
  have g: "wf_dict ?g" "set ?g \<subseteq> set stab" "\<not> set r \<subseteq> set ?g"
    using reduce_by_props [OF Cons.prems(1) r(1)] r(2) by simp_all
  from Cons.IH [OF g(1) rs]
  have IH: "wf_dict (fold reduce_by rs ?g)" "set (fold reduce_by rs ?g) \<subseteq> set ?g"
    "\<forall>r \<in> set rs. \<not> set r \<subseteq> set (fold reduce_by rs ?g)"
    by simp_all
  from IH(2) g(3) have "\<not> set r \<subseteq> set (fold reduce_by rs ?g)" by blast
  with IH g(2) show ?case by auto
qed

lemma good_stab_subset:
  assumes "good_stab c g" and "wf_dict h" and "h \<noteq> []" and "set h \<subseteq> set g"
  shows "good_stab c h"
  using assms unfolding good_stab_def by auto

lemma no_earlier_subset_append:
  "no_earlier_subset (S @ [x]) \<longleftrightarrow> no_earlier_subset S \<and> (\<forall>y \<in> set S. \<not> set y \<subseteq> set x)"
  by (induction S) (auto simp: list_all_iff)

definition simplified_ok :: "bacon_shor_code \<Rightarrow> stab_set \<Rightarrow> bool" where
  "simplified_ok c S = (good_set c S \<and> no_duplicates S \<and> no_earlier_subset S)"

lemma simplify_step_ok:
  assumes ord: "order_ok ord" and S: "simplified_ok c S" and stab: "good_stab c stab"
  shows "simplified_ok c (simplify_step ord stab S)"
proof -
  let ?g = "fold reduce_by (ord S) stab"
  have rs: "\<forall>r \<in> set (ord S). wf_dict r \<and> r \<noteq> []"
    using S ord by (auto simp: simplified_ok_def good_set_def good_stab_def order_ok_set)
  have wf: "wf_dict stab" using stab by (simp add: good_stab_def)
  from fold_reduce_by_props [OF wf rs]
  have g: "wf_dict ?g" "set ?g \<subseteq> set stab" "\<forall>r \<in> set S. \<not> set r \<subseteq> set ?g"
    using ord by (simp_all add: order_ok_set)
  show ?thesis
  proof (cases "is_trivial ?g \<or> set_contains S ?g")
    case True
    then have "simplify_step ord stab S = S"
      by (auto simp: simplify_step_def Let_def set_add_def)
    with S show ?thesis by simp
  next
    case False
    then have ne: "?g \<noteq> []" and eq: "simplify_step ord stab S = S @ [?g]"
      by (auto simp: simplify_step_def Let_def set_add_def is_trivial_def)
    have gg: "good_stab c ?g"
      using stab g(1) ne g(2) by (rule good_stab_subset)
    have "good_set c (S @ [?g])"
      using S gg by (simp add: simplified_ok_def good_set_append)
    moreover have "no_duplicates (set_add ?g S)"
      using S g(1) by (intro no_duplicates_set_add)
        (auto simp: simplified_ok_def good_set_def good_stab_def)
    then have "no_duplicates (S @ [?g])"
      using False by (simp add: set_add_def)
    moreover have "no_earlier_subset (S @ [?g])"
      using S g(3) by (simp add: no_earlier_subset_append simplified_ok_def)
    ultimately show ?thesis
      unfolding eq simplified_ok_def by blast
  qed
qed

lemma fold_simplify_step_ok:
  assumes "order_ok ord" and "simplified_ok c S" and "good_set c stabs"
  shows "simplified_ok c (fold (simplify_step ord) stabs S)"
  using assms(2,3)
proof (induction stabs arbitrary: S)
  case Nil
  then show ?case by simp
next
  case (Cons stab stabs)
  then have "good_stab c stab" and rest: "good_set c stabs"
    by (simp_all add: good_set_def)
  with assms(1) Cons.prems(1) have "simplified_ok c (simplify_step ord stab S)"
    by (simp add: simplify_step_ok)
  from Cons.IH [OF this rest] show ?case by simp
qed

lemma simplify_stabilizers_ok:
  assumes "order_ok ord" and "good_set c gens"
  shows "simplified_ok c (simplify_stabilizers ord gens)"
proof -
  have "set (sort_key length (ord gens)) = set gens"
    using assms(1) by (simp add: order_ok_set)
  with assms(2) have "good_set c (sort_key length (ord gens))"
    by (simp add: good_set_def)
  moreover have "simplified_ok c []"
    by (simp add: simplified_ok_def good_set_def)
  ultimately show ?thesis
    unfolding simplify_stabilizers_def
    using assms(1) by (intro fold_simplify_step_ok)
qed

section \<open>The invariant of the generator set\<close>

lemma same_grid_good_stab:
  "rows c' = rows c \<Longrightarrow> cols c' = cols c \<Longrightarrow> good_stab c' = good_stab c"
  by (simp add: fun_eq_iff good_stab_def in_grid_def)

lemma same_grid_simplified_ok:
  "rows c' = rows c \<Longrightarrow> cols c' = cols c \<Longrightarrow> simplified_ok c' = simplified_ok c"
  by (simp add: fun_eq_iff simplified_ok_def good_set_def good_stab_def in_grid_def)

lemma same_length_subset_eq:
  assumes "wf_dict g" and "wf_dict h" and "length g = length h" and "set g \<subseteq> set h"
  shows "stab_eq g h"
proof -
  have dg: "distinct g" and dh: "distinct h"
    using assms(1,2) by (auto simp: wf_dict_def dest: distinct_map [THEN iffD1])
  then have "card (set g) = card (set h)"
    using assms(3) by (simp add: distinct_card)
  with assms(4) have "set g = set h"
    by (simp add: card_subset_eq)
  then have "map_of g = map_of h"
    using assms(1,2) by (simp add: wf_dict_def map_of_inject_set)
  then show ?thesis
    using assms(1,2) by (simp add: stab_eq_iff dict_get_def)
qed

lemma no_earlier_subset_same_length:
  assumes "no_duplicates S" and "\<forall>g \<in> set S. wf_dict g \<and> length g = n"
  shows "no_earlier_subset S"
  using assms
proof (induction S)
  case Nil
  then show ?case by simp
next
  case (Cons g S)
  have "\<forall>h \<in> set S. \<not> set g \<subseteq> set h"
  proof
    fix h assume h: "h \<in> set S"
    with Cons.prems(1) have "\<not> stab_eq g h" by (simp add: list_all_iff)
    moreover have "wf_dict g" "wf_dict h" "length g = length h"
      using Cons.prems(2) h by simp_all
    ultimately show "\<not> set g \<subseteq> set h"
      using same_length_subset_eq by blast
  qed
  with Cons show ?case by (simp add: list_all_iff)
qed

lemma valid_terms:
  assumes "map (measurement_stabilizer c) ms = map Inr terms"
    and "\<forall>p \<in> set ms. fst (is_valid_measurement c p)"
  shows "\<forall>t \<in> set terms. good_stab c t \<and> length t = 2"
proof
  fix t assume "t \<in> set terms"
  then have "Inr t \<in> set (map (measurement_stabilizer c) ms)"
    unfolding assms(1) by simp
  then obtain p where p: "p \<in> set ms" and t: "measurement_stabilizer c p = Inr t"
    by auto
  with assms(2) have v: "fst (is_valid_measurement c p)" by blast
  from valid_measurement_stabilizer [OF v] t have "length t = 2" by auto
  with good_measurement_stabilizer [OF v t] show "good_stab c t \<and> length t = 2" by simp
qed

lemma update_stabilizers_ok:
  assumes ord: "order_ok ord" and G: "good_set c (stabilizer_generators c)"
    and valid: "\<forall>p \<in> set ms. fst (is_valid_measurement c p)"
  shows "\<exists>gens'. update_stabilizers ord c ms = Some (Inr (c\<lparr>stabilizer_generators := gens'\<rparr>)) \<and>
     simplified_ok c gens'"
proof -
  from build_stabilizers_valid [OF valid, of "([], [])"]
  obtain terms where m: "map (measurement_stabilizer c) ms = map Inr terms"
    and b: "build_stabilizers c ms ([], []) = Inr (fold set_add terms [], terms)"
    by auto
  have t: "\<forall>t \<in> set terms. good_stab c t \<and> length t = 2"
    using m valid by (rule valid_terms)
  let ?new = "fold set_add terms []"
  have sub: "set ?new \<subseteq> set terms"
    using set_fold_set_add [of terms "[]"] by simp
  with t have gnew: "good_set c ?new" by (auto simp: good_set_def)
  show ?thesis
  proof (cases "time_step c = 1")
    case True
    have "no_duplicates ?new"
      using t by (intro no_duplicates_fold_set_add) (auto simp: good_stab_def)
    moreover from this have "no_earlier_subset ?new"
      using t sub by (intro no_earlier_subset_same_length [where n = 2])
        (auto simp: good_stab_def)
    ultimately have "simplified_ok c ?new"
      using gnew by (simp add: simplified_ok_def)
    moreover have "update_stabilizers ord c ms = Some (Inr (c\<lparr>stabilizer_generators := ?new\<rparr>))"
      using True b by (simp add: update_stabilizers_def)
    ultimately show ?thesis by blast
  next
    case False
    let ?u = "set_union_update ord (stabilizer_generators c) ?new"
    have "good_set c ?u"
      using set_union_update_subset [OF ord, of "stabilizer_generators c" ?new] G gnew
      by (auto simp: good_set_def)
    moreover have "\<forall>m \<in> set terms. m \<noteq> []"
      using t by (auto simp: good_stab_def)
    ultimately obtain gens' where a: "adjust_stabilizers ord c terms ?u = Some (Inr gens')"
      and g': "good_set c gens'"
      using adjust_stabilizers_good [OF ord] by blast
    have "update_stabilizers ord c ms
        = Some (Inr (c\<lparr>stabilizer_generators := simplify_stabilizers ord gens'\<rparr>))"
      using False b a by (simp add: update_stabilizers_def)
    with simplify_stabilizers_ok [OF ord g'] show ?thesis by blast
  qed
qed

lemma run_time_step_ok:
  assumes ord: "order_ok ord" and G: "good_set c (stabilizer_generators c)"
  shows "\<exists>c'. run_time_step ord c batch = Some (Inr c') \<and>
     simplified_ok c' (stabilizer_generators c') \<and> rows c' = rows c \<and> cols c' = cols c"
proof -
  define c1 where "c1 = c\<lparr>time_step := time_step c + 1\<rparr>"
  define valid where "valid = filter (\<lambda>p. fst (is_valid_measurement c1 p)) batch"
  have g1: "good_set c1 (stabilizer_generators c1)"
    using G by (simp add: good_set_def c1_def)
  have v1: "\<forall>p \<in> set valid. fst (is_valid_measurement c1 p)"
    by (simp add: valid_def)
  from update_stabilizers_ok [OF ord g1 v1]
  obtain gens' where
    u: "update_stabilizers ord c1 valid = Some (Inr (c1\<lparr>stabilizer_generators := gens'\<rparr>))"
    and s: "simplified_ok c1 gens'"
    by blast
  define c' where "c' = c1\<lparr>stabilizer_generators := gens', current_measurements := valid,
       measurements_history := measurements_history c1 @ [valid], selected_edges := []\<rparr>"
  have r: "run_time_step ord c batch = Some (Inr c')"
    unfolding run_time_step_def Let_def c1_def [symmetric] valid_def [symmetric] u
    by (simp add: c'_def)
  have grid: "rows c' = rows c1" "cols c' = cols c1" "rows c1 = rows c" "cols c1 = cols c"
    and gens: "stabilizer_generators c' = gens'"
    by (simp_all add: c'_def c1_def)
  have "simplified_ok c' = simplified_ok c1"
    using grid(1,2) by (rule same_grid_simplified_ok)
  with s gens have "simplified_ok c' (stabilizer_generators c')" by simp
  with r grid show ?thesis by auto
qed

lemma run_schedule_ok:
  assumes ord: "order_ok ord"
  shows "simplified_ok c (stabilizer_generators c) \<Longrightarrow>
     \<exists>c'. run_schedule ord c batches = Some (Inr c') \<and>
       simplified_ok c' (stabilizer_generators c')"
proof (induction batches arbitrary: c)
  case Nil
  then show ?case by simp
next
  case (Cons batch batches)
  then have "good_set c (stabilizer_generators c)" by (simp add: simplified_ok_def)
  from run_time_step_ok [OF ord this, of batch]
  obtain c1 where r: "run_time_step ord c batch = Some (Inr c1)"
    and s: "simplified_ok c1 (stabilizer_generators c1)"
    by blast
  from Cons.IH [OF s] r show ?case by simp
qed

text \<open>
  C4, as stated, fails in its last part, for some orders in which Python may iterate the
  sets. With the sets visited by buckets of a hash (the sum of the qubit ids modulo 7), on
  the lattice of 4 by 3 vertices: after two steps the generators are \<open>X9 X12\<close>,
  \<open>Z2 Z3 Z5 Z6\<close> and \<open>Z8 Z9 Z11 Z12\<close>. In step 3 the measurement X on \<open>(6, 9)\<close> finds the
  anti-commuting generators in the order \<open>Z2 Z3 Z5 Z6\<close>, \<open>Z8 Z9\<close>, \<open>Z5 Z6\<close>,
  \<open>Z8 Z9 Z11 Z12\<close> and combines the first two and the last two. The simplification then
  sorts \<open>Z2 Z3\<close>, \<open>Z5 Z6 Z8 Z9 Z11 Z12\<close>, \<open>Z2 Z3 Z5 Z6 Z8 Z9\<close> by weight, accepts the
  first two, and reduces the third by \<open>Z2 Z3\<close> to \<open>Z5 Z6 Z8 Z9\<close>, a strict subset of the
  generator accepted just before.
\<close>

theorem strict_superset_counterexample:
  "order_ok bucket_order \<and>
   map_option (map_sum id stabilizer_generators)
     (run_schedule bucket_order (init 3 2) [[(8, 9), (11, 12)], [(2, 3), (3, 6), (5, 6), (9, 12)]])
   = Some (Inr [[(9, X), (12, X)], [(5, Z), (6, Z), (2, Z), (3, Z)],
        [(11, Z), (12, Z), (8, Z), (9, Z)]]) \<and>
   map_option (map_sum id stabilizer_generators)
     (run_schedule bucket_order (init 3 2)
        [[(8, 9), (11, 12)], [(2, 3), (3, 6), (5, 6), (9, 12)], [(5, 6), (2, 3), (6, 9), (8, 9)]])
   = Some (Inr [[(2, Z), (3, Z)], [(5, Z), (6, Z), (11, Z), (12, Z), (8, Z), (9, Z)],
        [(5, Z), (6, Z), (8, Z), (9, Z)]]) \<and>
   set [(5, Z), (6, Z), (8, Z), (9 :: int, Z)]
     \<subseteq> set [(5, Z), (6, Z), (11, Z), (12, Z), (8, Z), (9, Z)] \<and>
   \<not> set [(5, Z), (6, Z), (11, Z), (12, Z), (8, Z), (9 :: int, Z)]
     \<subseteq> set [(5, Z), (6, Z), (8, Z), (9, Z)]"
proof (intro conjI)
  show "order_ok bucket_order"
    by (simp add: order_ok_def bucket_order_def)
  show "map_option (map_sum id stabilizer_generators)
     (run_schedule bucket_order (init 3 2) [[(8, 9), (11, 12)], [(2, 3), (3, 6), (5, 6), (9, 12)]])
   = Some (Inr [[(9, X), (12, X)], [(5, Z), (6, Z), (2, Z), (3, Z)],
        [(11, Z), (12, Z), (8, Z), (9, Z)]])"
    by code_simp
  show "map_option (map_sum id stabilizer_generators)
     (run_schedule bucket_order (init 3 2)
        [[(8, 9), (11, 12)], [(2, 3), (3, 6), (5, 6), (9, 12)], [(5, 6), (2, 3), (6, 9), (8, 9)]])
   = Some (Inr [[(2, Z), (3, Z)], [(5, Z), (6, Z), (11, Z), (12, Z), (8, Z), (9, Z)],
        [(5, Z), (6, Z), (8, Z), (9, Z)]])"
    by code_simp
  show "set [(5, Z), (6, Z), (8, Z), (9 :: int, Z)]
     \<subseteq> set [(5, Z), (6, Z), (11, Z), (12, Z), (8, Z), (9, Z)]"
    by simp
  show "\<not> set [(5, Z), (6, Z), (11, Z), (12, Z), (8, Z), (9 :: int, Z)]
     \<subseteq> set [(5, Z), (6, Z), (8, Z), (9, Z)]"
    by simp
qed

text \<open>
  C4, amended. From a new code object, every schedule of batches runs to its end without
  an exception, whatever the order of iteration, and after every time step: no two
  generators are equal, every generator is non-trivial, and no generator's set of
  (qubit, symbol) pairs contains the set of a generator that was accepted before it
  (the list of generators is in the order of acceptance). A generator accepted earlier
  may be a strict superset of one accepted later.
\<close>

theorem generator_set_invariant:
  assumes "order_ok ord"
  shows "\<exists>c'. run_schedule ord (init r k) batches = Some (Inr c') \<and>
     no_duplicates (stabilizer_generators c') \<and>
     (\<forall>g \<in> set (stabilizer_generators c'). \<not> is_trivial g) \<and>
     no_earlier_subset (stabilizer_generators c')"
proof -
  have "simplified_ok (init r k) (stabilizer_generators (init r k))"
    by (simp add: simplified_ok_def good_set_def init_def)
  from run_schedule_ok [OF assms this, of batches]
  obtain c' where "run_schedule ord (init r k) batches = Some (Inr c')"
    and "simplified_ok c' (stabilizer_generators c')"
    by blast
  then show ?thesis
    by (auto simp: simplified_ok_def good_set_def good_stab_def is_trivial_def)
qed

theorem generator_set_invariant_witness:
  "order_ok bucket_order \<and>
   map_option (map_sum id stabilizer_generators)
     (run_schedule bucket_order (init 3 2)
        [[(8, 9), (11, 12)], [(2, 3), (3, 6), (5, 6), (9, 12)], [(5, 6), (2, 3), (6, 9), (8, 9)]])
   = Some (Inr [[(2, Z), (3, Z)], [(5, Z), (6, Z), (11, Z), (12, Z), (8, Z), (9, Z)],
        [(5, Z), (6, Z), (8, Z), (9, Z)]]) \<and>
   no_duplicates [[(2, Z), (3, Z)], [(5, Z), (6, Z), (11, Z), (12, Z), (8, Z), (9, Z)],
        [(5, Z), (6, Z), (8, Z), (9, Z)]] \<and>
   no_earlier_subset [[(2, Z), (3, Z)], [(5, Z), (6, Z), (11, Z), (12, Z), (8, Z), (9, Z)],
        [(5, Z), (6, Z), (8, Z), (9, Z)]]"
proof -
  let ?sched = "[[(8, 9), (11, 12)], [(2, 3), (3, 6), (5, 6), (9, 12)], [(5, 6), (2, 3), (6, 9), (8, 9)]]"
  let ?gens = "[[(2, Z), (3, Z)], [(5, Z), (6, Z), (11, Z), (12, Z), (8, Z), (9, Z)],
        [(5, Z), (6, Z), (8, Z), (9, Z)]] :: stab_set"
  have o: "order_ok bucket_order"
    by (simp add: order_ok_def bucket_order_def)
  have e: "map_option (map_sum id stabilizer_generators)
     (run_schedule bucket_order (init 3 2) ?sched) = Some (Inr ?gens)"
    by code_simp
  from generator_set_invariant [OF o, of 3 2 ?sched]
  obtain c' where c': "run_schedule bucket_order (init 3 2) ?sched = Some (Inr c')"
    and nd: "no_duplicates (stabilizer_generators c')"
    and ne: "no_earlier_subset (stabilizer_generators c')"
    by blast
  from e have "stabilizer_generators c' = ?gens" unfolding c' by simp
  with nd ne have "no_duplicates ?gens" and "no_earlier_subset ?gens" by simp_all
  with o e show ?thesis by (intro conjI)
qed

section \<open>Runs under an arbitrary order of iteration\<close>

lemma order_ok_filter: "order_ok ord \<Longrightarrow> mset (filter P (ord S)) = mset (filter P S)"
  by (simp add: order_ok_def)

lemma mset_eq_Nil: "mset xs = mset [] \<Longrightarrow> xs = []"
  by simp

lemma mset_eq_single: "mset xs = mset [a] \<Longrightarrow> xs = [a]"
  by (cases xs) (auto simp: single_is_union)

lemma mset_eq_pair: "mset xs = mset [a, b] \<Longrightarrow> xs = [a, b] \<or> xs = [b, a]"
proof -
  assume m: "mset xs = mset [a, b]"
  then have "length xs = 2" by (metis length_Cons list.size(3) mset_eq_length One_nat_def Suc_1)
  then obtain x y where xs: "xs = [x, y]"
    by (metis (no_types) One_nat_def Suc_1 length_0_conv length_Suc_conv)
  with m have "{#x, y#} = {#a, b#}" by (simp add: add_mset_commute)
  then have "(x = a \<and> y = b) \<or> (x = b \<and> y = a)"
    by (auto simp: add_eq_conv_ex)
  with xs show ?thesis by auto
qed

lemma order_ok_Nil: "order_ok ord \<Longrightarrow> ord [] = []"
  using mset_zero_iff [of "ord []"] by (simp add: order_ok_def del: mset_zero_iff)

lemma order_ok_single: "order_ok ord \<Longrightarrow> ord [a] = [a]"
  using mset_eq_single [of "ord [a]" a] by (simp add: order_ok_def)

lemma order_ok_nonempty: "order_ok ord \<Longrightarrow> S \<noteq> [] \<Longrightarrow> ord S \<noteq> []"
  using order_ok_set [of ord S] by auto

lemma first_step_any_order:
  "time_step c = 0 \<Longrightarrow> run_time_step ord c batch = run_time_step storage_order c batch"
  by (simp add: run_time_step_def update_stabilizers_def Let_def cong: sum.case_cong)

lemma first_step_initial_any_order:
  "time_step c = 0 \<Longrightarrow>
   run_time_step_initial ord c batch = run_time_step_initial storage_order c batch"
  by (simp add: run_time_step_initial_def update_stabilizers_initial_def Let_def cong: sum.case_cong)

section \<open>The two resolvers on one measurement\<close>

text \<open>
  The generators \<open>Z2 Z3\<close>, \<open>Z6 Z7\<close> and the new \<open>X2 X7\<close> of the lattice of 5 by 5 vertices,
  and the measurement X on \<open>(2, 7)\<close>. Whatever the order of iteration, the list of
  anti-commuting generators holds \<open>Z2 Z3\<close> and \<open>Z6 Z7\<close>, in one order or the other.
\<close>

lemma anti_commuting_2_7:
  assumes "order_ok ord"
  shows "anti_commuting_stabs ord [(2, X), (7, X)]
       [[(2, Z), (3, Z)], [(6, Z), (7, Z)], [(2, X), (7, X)]]
       = Inr [[(2, Z), (3, Z)], [(6, Z), (7, Z)]] \<or>
     anti_commuting_stabs ord [(2, X), (7, X)]
       [[(2, Z), (3, Z)], [(6, Z), (7, Z)], [(2, X), (7, X)]]
       = Inr [[(6, Z), (7, Z)], [(2, Z), (3, Z)]]"
proof -
  let ?m = "[(2, X), (7, X)] :: stabilizer"
  let ?a = "[(2, Z), (3, Z)] :: stabilizer"
  let ?b = "[(6, Z), (7, Z)] :: stabilizer"
  let ?G = "[?a, ?b, ?m]"
  let ?P = "\<lambda>stab. \<not> commutes_with stab ([2, 7], X) \<and> \<not> stab_eq stab ?m"
  have "filter ?P ?G = [?a, ?b]" by code_simp
  then have "mset (filter ?P (ord ?G)) = mset [?a, ?b]"
    using order_ok_filter [OF assms, of ?P ?G] by simp
  then have A: "filter ?P (ord ?G) = [?a, ?b] \<or> filter ?P (ord ?G) = [?b, ?a]"
    by (rule mset_eq_pair)
  have ne: "ord ?G \<noteq> []"
    using assms by (rule order_ok_nonempty) simp
  have mo: "measurement_of ?m = Inr ([2, 7], X)" by code_simp
  have "anti_commuting_stabs ord ?m ?G = Inr (filter ?P (ord ?G))"
    using ne by (simp add: anti_commuting_stabs_def mo)
  with A show ?thesis by auto
qed

lemma refined_adjust_2_7:
  assumes ord: "order_ok ord"
    and r1: "resolve_loop c [(2, X), (7, X)]
        ([[(2, Z), (3, Z)], [(6, Z), (7, Z)]], [[(2, Z), (3, Z)], [(6, Z), (7, Z)], [(2, X), (7, X)]])
      = Some (Inr ([[(2, Z), (3, Z)], [(6, Z), (7, Z)]],
          [[(2, Z), (3, Z)], [(6, Z), (7, Z)], [(2, X), (7, X)]]))"
    and r2: "resolve_loop c [(2, X), (7, X)]
        ([[(6, Z), (7, Z)], [(2, Z), (3, Z)]], [[(2, Z), (3, Z)], [(6, Z), (7, Z)], [(2, X), (7, X)]])
      = Some (Inr ([[(6, Z), (7, Z)], [(2, Z), (3, Z)]],
          [[(2, Z), (3, Z)], [(6, Z), (7, Z)], [(2, X), (7, X)]]))"
  shows "adjust_stabilizers ord c [[(2, X), (7, X)]]
       [[(2, Z), (3, Z)], [(6, Z), (7, Z)], [(2, X), (7, X)]] = Some (Inr [[(2, X), (7, X)]])"
proof -
  let ?m = "[(2, X), (7, X)] :: stabilizer"
  let ?a = "[(2, Z), (3, Z)] :: stabilizer"
  let ?b = "[(6, Z), (7, Z)] :: stabilizer"
  let ?G = "[?a, ?b, ?m]"
  have d1: "set_discard ?b (set_discard ?a ?G) = [?m]" by code_simp
  have d2: "set_discard ?a (set_discard ?b ?G) = [?m]" by code_simp
  from anti_commuting_2_7 [OF ord] show ?thesis
  proof
    assume "anti_commuting_stabs ord ?m ?G = Inr [?a, ?b]"
    then show ?thesis by (simp add: r1 d1)
  next
    assume "anti_commuting_stabs ord ?m ?G = Inr [?b, ?a]"
    then show ?thesis by (simp add: r2 d2)
  qed
qed

lemma anti_commuting_after_pairing:
  assumes "order_ok ord" and "commutes_with p ([2, 7], X)"
  shows "anti_commuting_stabs ord [(2, X), (7, X)] [[(2, X), (7, X)], p] = Inr []"
proof -
  let ?m = "[(2, X), (7, X)] :: stabilizer"
  let ?P = "\<lambda>stab. \<not> commutes_with stab ([2, 7], X) \<and> \<not> stab_eq stab ?m"
  have "stab_eq ?m ?m" by code_simp
  with assms(2) have "filter ?P [?m, p] = []" by simp
  then have "mset (filter ?P (ord [?m, p])) = mset []"
    using order_ok_filter [OF assms(1), of ?P "[?m, p]"] by simp
  then have "filter ?P (ord [?m, p]) = []" by simp
  moreover have "ord [?m, p] \<noteq> []"
    using assms(1) by (rule order_ok_nonempty) simp
  moreover have "measurement_of ?m = Inr ([2, 7], X)" by code_simp
  ultimately show ?thesis
    by (simp add: anti_commuting_stabs_def)
qed

lemma prototype_adjust_2_7:
  assumes ord: "order_ok ord"
  shows "adjust_stabilizers_initial ord [[(2, X), (7, X)]]
       [[(2, Z), (3, Z)], [(6, Z), (7, Z)], [(2, X), (7, X)]]
       = Some (Inr [[(2, X), (7, X)], [(6, Z), (7, Z), (2, Z), (3, Z)]]) \<or>
     adjust_stabilizers_initial ord [[(2, X), (7, X)]]
       [[(2, Z), (3, Z)], [(6, Z), (7, Z)], [(2, X), (7, X)]]
       = Some (Inr [[(2, X), (7, X)], [(2, Z), (3, Z), (6, Z), (7, Z)]])"
proof -
  let ?m = "[(2, X), (7, X)] :: stabilizer"
  let ?a = "[(2, Z), (3, Z)] :: stabilizer"
  let ?b = "[(6, Z), (7, Z)] :: stabilizer"
  let ?p1 = "[(6, Z), (7, Z), (2, Z), (3, Z)] :: stabilizer"
  let ?p2 = "[(2, Z), (3, Z), (6, Z), (7, Z)] :: stabilizer"
  let ?G = "[?a, ?b, ?m]"
  have m1: "multiply ?b ?a = ?p1" and m2: "multiply ?a ?b = ?p2" by code_simp+
  have g1: "set_add ?p1 (set_discard ?a (set_discard ?b ?G)) = [?m, ?p1]"
    and g2: "set_add ?p2 (set_discard ?b (set_discard ?a ?G)) = [?m, ?p2]"
    by code_simp+
  have c1: "commutes_with ?p1 ([2, 7], X)" and c2: "commutes_with ?p2 ([2, 7], X)"
    by code_simp+
  have e: "pair_loop_initial ord ?m ([], S) = Some (Inr ([], S))" for S
    by (subst pair_loop_initial.simps) simp
  have l1: "pair_loop_initial ord ?m ([?a, ?b], ?G) = Some (Inr ([], [?m, ?p1]))"
    by (subst pair_loop_initial.simps)
      (simp add: Let_def m1 g1 is_trivial_def anti_commuting_after_pairing [OF ord c1] e)
  have l2: "pair_loop_initial ord ?m ([?b, ?a], ?G) = Some (Inr ([], [?m, ?p2]))"
    by (subst pair_loop_initial.simps)
      (simp add: Let_def m2 g2 is_trivial_def anti_commuting_after_pairing [OF ord c2] e)
  from anti_commuting_2_7 [OF ord] show ?thesis
  proof
    assume "anti_commuting_stabs ord ?m ?G = Inr [?a, ?b]"
    then show ?thesis by (simp add: l1)
  next
    assume "anti_commuting_stabs ord ?m ?G = Inr [?b, ?a]"
    then show ?thesis by (simp add: l2)
  qed
qed

section \<open>Only the size of the grid matters\<close>

definition same_grid :: "bacon_shor_code \<Rightarrow> bacon_shor_code \<Rightarrow> bool" where
  "same_grid c c' = (rows c = rows c' \<and> cols c = cols c')"

lemma same_grid_argwhere: "same_grid c c' \<Longrightarrow> argwhere c = argwhere c'"
  by (rule ext) (simp add: same_grid_def argwhere_def num_qubits_def)

lemma same_grid_is_valid_measurement:
  "same_grid c c' \<Longrightarrow> is_valid_measurement c = is_valid_measurement c'"
  by (rule ext) (simp only: is_valid_measurement_def same_grid_argwhere [of c c'])

lemma same_grid_measurement_stabilizer:
  "same_grid c c' \<Longrightarrow> measurement_stabilizer c = measurement_stabilizer c'"
  by (rule ext)
    (simp only: measurement_stabilizer_def get_measurement_type_def same_grid_argwhere [of c c'])

lemma same_grid_build_stabilizers:
  "same_grid c c' \<Longrightarrow> build_stabilizers c ms acc = build_stabilizers c' ms acc"
  by (induction ms arbitrary: acc)
    (auto simp: same_grid_measurement_stabilizer [of c c'] split: sum.splits)

lemma same_grid_coordinates:
  "same_grid c c' \<Longrightarrow> coordinates c k qs = coordinates c' k qs"
  by (induction qs)
    (auto simp: get_qubit_position_def same_grid_argwhere [of c c'] split: sum.splits list.splits)

lemma same_grid_span_fits:
  "same_grid c c' \<Longrightarrow> span_fits c = span_fits c'"
  by (intro ext) (simp only: span_fits_def same_grid_coordinates [of c c'])

lemma same_grid_scan_inner:
  "same_grid c c' \<Longrightarrow> scan_inner c s1 t rest = scan_inner c' s1 t rest"
  by (induction rest)
    (auto simp: same_grid_span_fits [of c c'] split: sum.splits bool.splits)

lemma same_grid_scan_outer:
  "same_grid c c' \<Longrightarrow> scan_outer c A = scan_outer c' A"
  by (induction A)
    (auto simp: same_grid_scan_inner [of c c'] split: sum.splits option.splits)

lemma same_grid_resolve_loop:
  assumes "same_grid c c'"
  shows "resolve_loop c meas_stab st = resolve_loop c' meas_stab st"
proof (induction "length (fst st)" arbitrary: st rule: less_induct)
  case less
  have scan: "scan_outer c (fst st) = scan_outer c' (fst st)"
    using assms by (rule same_grid_scan_outer)
  show ?case
  proof (cases "scan_outer c' (fst st)")
    case (Inl e)
    with scan show ?thesis
      by (subst (1 2) resolve_loop.simps) simp
  next
    case found: (Inr found)
    show ?thesis
    proof (cases found)
      case None
      with scan found show ?thesis
        by (subst (1 2) resolve_loop.simps) simp
    next
      case (Some pair)
      show ?thesis
      proof (cases "combine_stabilizers meas_stab (fst pair) (snd pair) st")
        case (Inl e)
        with scan found Some show ?thesis
          by (subst (1 2) resolve_loop.simps) simp
      next
        case (Inr st')
        then have "length (fst st') < length (fst st)"
          by (simp add: combine_stabilizers_length)
        then have "resolve_loop c meas_stab st' = resolve_loop c' meas_stab st'"
          by (rule less)
        with scan found Some Inr show ?thesis
          by (subst (1 2) resolve_loop.simps) simp
      qed
    qed
  qed
qed

lemma same_grid_adjust_stabilizers:
  assumes "same_grid c c'"
  shows "adjust_stabilizers ord c ms gens = adjust_stabilizers ord c' ms gens"
proof (induction ms arbitrary: gens)
  case Nil
  then show ?case by simp
next
  case (Cons m ms)
  then show ?case
    by (auto simp: same_grid_resolve_loop [OF assms] split: sum.splits option.splits)
qed

lemma refined_second_step_2_7:
  assumes ord: "order_ok ord" and g: "same_grid c (init 4 4)"
    and gens: "stabilizer_generators c = [[(2, Z), (3, Z)], [(6, Z), (7, Z)]]"
    and t: "time_step c = 1"
  shows "\<exists>c'. run_time_step ord c [(2, 7)] = Some (Inr c') \<and>
     stabilizer_generators c' = [[(2, X), (7, X)]]"
proof -
  let ?m = "[(2, X), (7, X)] :: stabilizer"
  let ?a = "[(2, Z), (3, Z)] :: stabilizer"
  let ?b = "[(6, Z), (7, Z)] :: stabilizer"
  let ?G = "[?a, ?b, ?m]"
  define c1 where "c1 = c\<lparr>time_step := time_step c + 1\<rparr>"
  have g1: "same_grid c1 (init 4 4)"
    using g by (simp add: same_grid_def c1_def)
  have v: "filter (\<lambda>p. fst (is_valid_measurement c1 p)) [(2, 7)] = [(2, 7)]"
    unfolding same_grid_is_valid_measurement [OF g1] by code_simp
  have b: "build_stabilizers c1 [(2, 7)] ([], []) = Inr ([?m], [?m])"
    unfolding same_grid_build_stabilizers [OF g1] by code_simp
  have "fold set_add [?m] [?a, ?b] = ?G" by code_simp
  then have u: "set_union_update ord (stabilizer_generators c1) [?m] = ?G"
    by (simp add: set_union_update_def order_ok_single [OF ord] c1_def gens del: fold_simps)
  have r1: "resolve_loop (init 4 4) ?m ([?a, ?b], ?G) = Some (Inr ([?a, ?b], ?G))"
    by code_simp
  have r2: "resolve_loop (init 4 4) ?m ([?b, ?a], ?G) = Some (Inr ([?b, ?a], ?G))"
    by code_simp
  have adj: "adjust_stabilizers ord c1 [?m] ?G = Some (Inr [?m])"
    unfolding same_grid_adjust_stabilizers [OF g1]
    using ord r1 r2 by (rule refined_adjust_2_7)
  have s: "simplify_stabilizers ord [?m] = [?m]"
    using simplify_no_subsets [OF ord, of "[?m]"]
    by (simp add: no_subsets_def order_ok_single [OF ord])
  have t1: "time_step c1 \<noteq> 1" by (simp add: c1_def t)
  have up: "update_stabilizers ord c1 [(2, 7)] = Some (Inr (c1\<lparr>stabilizer_generators := [?m]\<rparr>))"
    unfolding update_stabilizers_def b using t1
    by (simp add: u adj s del: adjust_stabilizers.simps)
  have "run_time_step ord c [(2, 7)]
      = Some (Inr (c1\<lparr>stabilizer_generators := [?m], current_measurements := [(2, 7)],
           measurements_history := measurements_history c1 @ [[(2, 7)]],
           selected_edges := []\<rparr>))"
    unfolding run_time_step_def Let_def c1_def [symmetric] v up by simp
  then show ?thesis by simp
qed

lemma prototype_second_step_2_7:
  assumes ord: "order_ok ord" and g: "same_grid c (init 4 4)"
    and gens: "stabilizer_generators c = [[(2, Z), (3, Z)], [(6, Z), (7, Z)]]"
    and t: "time_step c = 1"
  shows "\<exists>c'. run_time_step_initial ord c [(2, 7)] = Some (Inr c') \<and>
     (stabilizer_generators c' = [[(2, X), (7, X)], [(6, Z), (7, Z), (2, Z), (3, Z)]] \<or>
      stabilizer_generators c' = [[(2, X), (7, X)], [(2, Z), (3, Z), (6, Z), (7, Z)]])"
proof -
  let ?m = "[(2, X), (7, X)] :: stabilizer"
  let ?a = "[(2, Z), (3, Z)] :: stabilizer"
  let ?b = "[(6, Z), (7, Z)] :: stabilizer"
  let ?G = "[?a, ?b, ?m]"
  define c1 where "c1 = c\<lparr>time_step := time_step c + 1\<rparr>"
  have g1: "same_grid c1 (init 4 4)"
    using g by (simp add: same_grid_def c1_def)
  have v: "filter (\<lambda>p. fst (is_valid_measurement c1 p)) [(2, 7)] = [(2, 7)]"
    unfolding same_grid_is_valid_measurement [OF g1] by code_simp
  have b: "build_stabilizers c1 [(2, 7)] ([], []) = Inr ([?m], [?m])"
    unfolding same_grid_build_stabilizers [OF g1] by code_simp
  have "fold set_add [?m] [?a, ?b] = ?G" by code_simp
  then have u: "set_union_update ord (stabilizer_generators c1) [?m] = ?G"
    by (simp add: set_union_update_def order_ok_single [OF ord] c1_def gens del: fold_simps)
  have t1: "time_step c1 \<noteq> 1" by (simp add: c1_def t)
  from prototype_adjust_2_7 [OF ord]
  obtain gens' where adj: "adjust_stabilizers_initial ord [?m] ?G = Some (Inr gens')"
    and gens': "gens' = [?m, [(6, Z), (7, Z), (2, Z), (3, Z)]] \<or>
      gens' = [?m, [(2, Z), (3, Z), (6, Z), (7, Z)]]"
    by blast
  have up: "update_stabilizers_initial ord c1 [(2, 7)]
      = Some (Inr (c1\<lparr>stabilizer_generators := gens'\<rparr>))"
    unfolding update_stabilizers_initial_def b using t1
    by (simp add: u adj del: adjust_stabilizers_initial.simps)
  have "run_time_step_initial ord c [(2, 7)]
      = Some (Inr (c1\<lparr>stabilizer_generators := gens',
           prev_measurements := current_measurements c1,
           current_measurements := [(2, 7)]\<rparr>))"
    unfolding run_time_step_initial_def Let_def c1_def [symmetric] v up by simp
  with gens' show ?thesis by auto
qed

text \<open>
  C6. On the lattice of 5 by 5 vertices, after a first step with the pairs \<open>(2,3)\<close> and
  \<open>(6,7)\<close>, the measurement X on \<open>(2,7)\<close> anti-commutes with \<open>Z2 Z3\<close> and with \<open>Z6 Z7\<close>.
  The first version pairs them and keeps their product \<open>Z2 Z3 Z6 Z7\<close>; the interactive tool
  finds three columns under the two and discards both. Whatever the order in which the
  sets are iterated, the two tools end with different generator sets, and the two
  resolvers already differ on the generator set of the second step.
\<close>

theorem resolvers_differ:
  assumes "order_ok ord"
  shows "\<exists>c1 c2 gens2.
     run_schedule ord (init 4 4) [[(2, 3), (6, 7)], [(2, 7)]] = Some (Inr c1) \<and>
     run_schedule_initial ord (init 4 4) [[(2, 3), (6, 7)], [(2, 7)]] = Some (Inr c2) \<and>
     stabilizer_generators c1 = [[(2, X), (7, X)]] \<and>
     length (stabilizer_generators c2) = 2 \<and>
     set_contains (stabilizer_generators c2) [(2, Z), (3, Z), (6, Z), (7, Z)] \<and>
     \<not> set_contains (stabilizer_generators c1) [(2, Z), (3, Z), (6, Z), (7, Z)] \<and>
     adjust_stabilizers ord (init 4 4) [[(2, X), (7, X)]]
       [[(2, Z), (3, Z)], [(6, Z), (7, Z)], [(2, X), (7, X)]] = Some (Inr [[(2, X), (7, X)]]) \<and>
     adjust_stabilizers_initial ord [[(2, X), (7, X)]]
       [[(2, Z), (3, Z)], [(6, Z), (7, Z)], [(2, X), (7, X)]] = Some (Inr gens2) \<and>
     set_contains gens2 [(2, Z), (3, Z), (6, Z), (7, Z)]"
proof -
  let ?m = "[(2, X), (7, X)] :: stabilizer"
  let ?a = "[(2, Z), (3, Z)] :: stabilizer"
  let ?b = "[(6, Z), (7, Z)] :: stabilizer"
  let ?G = "[?a, ?b, ?m]"
  let ?p = "[(2, Z), (3, Z), (6, Z), (7, Z)] :: stabilizer"
  have t0: "time_step (init 4 4) = 0" by (simp add: init_def)
  \<comment> \<open>the first step\<close>
  have "run_time_step storage_order (init 4 4) [(2, 3), (6, 7)]
      = Some (Inr \<lparr>rows = 4, cols = 4, stabilizer_generators = [?a, ?b], time_step = 1,
          prev_measurements = [], current_measurements = [(2, 3), (6, 7)],
          measurements_history = [[(2, 3), (6, 7)]], selected_edges = []\<rparr>)"
    by code_simp
  then obtain d1 where s1: "run_time_step ord (init 4 4) [(2, 3), (6, 7)] = Some (Inr d1)"
    and d1: "same_grid d1 (init 4 4)" "stabilizer_generators d1 = [?a, ?b]" "time_step d1 = 1"
    unfolding first_step_any_order [OF t0, of ord] by (simp add: same_grid_def init_def)
  have "run_time_step_initial storage_order (init 4 4) [(2, 3), (6, 7)]
      = Some (Inr \<lparr>rows = 4, cols = 4, stabilizer_generators = [?a, ?b], time_step = 1,
          prev_measurements = [], current_measurements = [(2, 3), (6, 7)],
          measurements_history = [], selected_edges = []\<rparr>)"
    by code_simp
  then obtain e1 where i1: "run_time_step_initial ord (init 4 4) [(2, 3), (6, 7)] = Some (Inr e1)"
    and e1: "same_grid e1 (init 4 4)" "stabilizer_generators e1 = [?a, ?b]" "time_step e1 = 1"
    unfolding first_step_initial_any_order [OF t0, of ord] by (simp add: same_grid_def init_def)
  \<comment> \<open>the second step\<close>
  from refined_second_step_2_7 [OF assms d1]
  obtain c1 where s2: "run_time_step ord d1 [(2, 7)] = Some (Inr c1)"
    and c1: "stabilizer_generators c1 = [?m]"
    by blast
  from prototype_second_step_2_7 [OF assms e1]
  obtain c2 where i2: "run_time_step_initial ord e1 [(2, 7)] = Some (Inr c2)"
    and c2: "stabilizer_generators c2 = [?m, [(6, Z), (7, Z), (2, Z), (3, Z)]] \<or>
      stabilizer_generators c2 = [?m, ?p]"
    by blast
  have r: "run_schedule ord (init 4 4) [[(2, 3), (6, 7)], [(2, 7)]] = Some (Inr c1)"
    by (simp add: s1 s2)
  have i: "run_schedule_initial ord (init 4 4) [[(2, 3), (6, 7)], [(2, 7)]] = Some (Inr c2)"
    by (simp add: i1 i2)
  have k1: "set_contains [?m, [(6, Z), (7, Z), (2, Z), (3, Z)]] ?p"
    and k2: "set_contains [?m, ?p] ?p" and k3: "\<not> set_contains [?m] ?p"
    by code_simp+
  from c2 k1 k2 have c2': "length (stabilizer_generators c2) = 2"
    "set_contains (stabilizer_generators c2) ?p"
    by auto
  \<comment> \<open>the two resolvers\<close>
  have "resolve_loop (init 4 4) ?m ([?a, ?b], ?G) = Some (Inr ([?a, ?b], ?G))"
    and "resolve_loop (init 4 4) ?m ([?b, ?a], ?G) = Some (Inr ([?b, ?a], ?G))"
    by code_simp+
  with assms have a1: "adjust_stabilizers ord (init 4 4) [?m] ?G = Some (Inr [?m])"
    by (rule refined_adjust_2_7)
  from prototype_adjust_2_7 [OF assms] k1 k2
  obtain gens2 where a2: "adjust_stabilizers_initial ord [?m] ?G = Some (Inr gens2)"
    and g2: "set_contains gens2 ?p"
    by auto
  from r i c1 c2' k3 a1 a2 g2 show ?thesis
    by (intro exI [of _ c1] exI [of _ c2] exI [of _ gens2]) simp
qed

theorem resolvers_differ_witness:
  "order_ok storage_order \<and>
   map_option (map_sum id stabilizer_generators)
     (run_schedule_initial storage_order (init 4 4) [[(2, 3), (6, 7)], [(2, 7)]])
     = Some (Inr [[(2, X), (7, X)], [(6, Z), (7, Z), (2, Z), (3, Z)]]) \<and>
   map_option (map_sum id stabilizer_generators)
     (run_schedule storage_order (init 4 4) [[(2, 3), (6, 7)], [(2, 7)]])
     = Some (Inr [[(2, X), (7, X)]]) \<and>
   adjust_stabilizers storage_order (init 4 4) [[(2, X), (7, X)]]
     [[(2, Z), (3, Z)], [(6, Z), (7, Z)], [(2, X), (7, X)]] = Some (Inr [[(2, X), (7, X)]])"
proof -
  have i: "map_option (map_sum id stabilizer_generators)
     (run_schedule_initial storage_order (init 4 4) [[(2, 3), (6, 7)], [(2, 7)]])
     = Some (Inr [[(2, X), (7, X)], [(6, Z), (7, Z), (2, Z), (3, Z)]])"
    by code_simp
  from resolvers_differ [OF order_ok_storage]
  obtain c1 where "run_schedule storage_order (init 4 4) [[(2, 3), (6, 7)], [(2, 7)]] = Some (Inr c1)"
    and "stabilizer_generators c1 = [[(2, X), (7, X)]]"
    and "adjust_stabilizers storage_order (init 4 4) [[(2, X), (7, X)]]
       [[(2, Z), (3, Z)], [(6, Z), (7, Z)], [(2, X), (7, X)]] = Some (Inr [[(2, X), (7, X)]])"
    by blast
  with i order_ok_storage show ?thesis by simp
qed

section \<open>One measurement under an arbitrary order of iteration\<close>

lemma adjust_stabilizers_Cons:
  "adjust_stabilizers ord c (m # ms) G =
     (case adjust_stabilizers ord c [m] G of
        None \<Rightarrow> None
      | Some (Inl e) \<Rightarrow> Some (Inl e)
      | Some (Inr G') \<Rightarrow> adjust_stabilizers ord c ms G')"
  by (simp split: sum.splits option.splits)

lemma resolve_loop_Nil: "resolve_loop c m ([], G) = Some (Inr ([], G))"
  by (subst resolve_loop.simps) simp

text \<open>No generator anti-commutes with the measurement: nothing changes.\<close>

lemma adjust_stabilizers_none:
  assumes ord: "order_ok ord" and mm: "measurement_of m = Inr mm"
    and none: "\<forall>g \<in> set G. commutes_with g mm \<or> stab_eq g m"
  shows "adjust_stabilizers ord c [m] G = Some (Inr G)"
proof -
  have "filter (\<lambda>stab. \<not> commutes_with stab mm \<and> \<not> stab_eq stab m) (ord G) = []"
    using none by (auto simp: order_ok_set [OF ord] filter_empty_conv)
  then have "anti_commuting_stabs ord m G = Inr []"
    by (simp add: anti_commuting_stabs_def mm)
  then show ?thesis
    by (simp add: resolve_loop_Nil)
qed

text \<open>
  Exactly two generators anti-commute with the measurement, the scan combines them in
  whichever order it meets them, and their product commutes with the measurement: the
  two are replaced by the product.
\<close>

lemma adjust_stabilizers_pair:
  assumes ord: "order_ok ord" and mm: "measurement_of m = Inr mm"
    and two: "mset (filter (\<lambda>stab. \<not> commutes_with stab mm \<and> \<not> stab_eq stab m) G) = mset [a, b]"
    and refl: "stab_eq a a" "stab_eq b b"
    and scan: "scan_outer c [a, b] = Inr (Some (a, b))" "scan_outer c [b, a] = Inr (Some (b, a))"
    and nt: "\<not> is_trivial (multiply a b)" "\<not> is_trivial (multiply b a)"
    and cm: "commutes_with (multiply a b) mm" "commutes_with (multiply b a) mm"
  shows "adjust_stabilizers ord c [m] G
       = Some (Inr (set_add (multiply a b) (set_discard b (set_discard a G)))) \<or>
     adjust_stabilizers ord c [m] G
       = Some (Inr (set_add (multiply b a) (set_discard a (set_discard b G))))"
proof -
  let ?P = "\<lambda>stab. \<not> commutes_with stab mm \<and> \<not> stab_eq stab m"
  have "mset (filter ?P (ord G)) = mset [a, b]"
    using order_ok_filter [OF ord, of ?P G] two by simp
  then have A: "filter ?P (ord G) = [a, b] \<or> filter ?P (ord G) = [b, a]"
    by (rule mset_eq_pair)
  then have "ord G \<noteq> []" by auto
  then have ac: "anti_commuting_stabs ord m G = Inr (filter ?P (ord G))"
    by (simp add: anti_commuting_stabs_def mm)
  have c1: "combine_stabilizers m a b ([a, b], G)
      = Inr ([], set_add (multiply a b) (set_discard b (set_discard a G)))"
    using refl nt(1) cm(1) by (simp add: combine_stabilizers_def Let_def mm)
  have c2: "combine_stabilizers m b a ([b, a], G)
      = Inr ([], set_add (multiply b a) (set_discard a (set_discard b G)))"
    using refl nt(2) cm(2) by (simp add: combine_stabilizers_def Let_def mm)
  have r1: "resolve_loop c m ([a, b], G)
      = Some (Inr ([], set_add (multiply a b) (set_discard b (set_discard a G))))"
    by (subst resolve_loop.simps) (simp add: scan c1 resolve_loop_Nil del: scan_outer.simps)
  have r2: "resolve_loop c m ([b, a], G)
      = Some (Inr ([], set_add (multiply b a) (set_discard a (set_discard b G))))"
    by (subst resolve_loop.simps) (simp add: scan c2 resolve_loop_Nil del: scan_outer.simps)
  from A show ?thesis
  proof
    assume "filter ?P (ord G) = [a, b]"
    then show ?thesis by (simp add: ac r1)
  next
    assume "filter ?P (ord G) = [b, a]"
    then show ?thesis by (simp add: ac r2)
  qed
qed

text \<open>What the set operations do to a set that is known up to its order.\<close>

lemma mset_set_discard: "mset G = mset L \<Longrightarrow> mset (set_discard x G) = mset (set_discard x L)"
  by (simp add: set_discard_def)

lemma mset_set_add: "mset G = mset L \<Longrightarrow> mset (set_add x G) = mset (set_add x L)"
proof -
  assume m: "mset G = mset L"
  then have "set G = set L" by (rule mset_eq_setD)
  then have "set_contains G x = set_contains L x"
    by (simp add: set_contains_def list_ex_iff)
  with m show ?thesis by (simp add: set_add_def)
qed

lemma fold_set_add_fresh:
  assumes "distinct (S @ T)"
    and "\<forall>g \<in> set (S @ T). \<forall>h \<in> set (S @ T). stab_eq g h \<longrightarrow> g = h"
  shows "fold set_add T S = S @ T"
  using assms
proof (induction T arbitrary: S)
  case Nil
  then show ?case by simp
next
  case (Cons x T)
  have "\<not> set_contains S x"
  proof
    assume "set_contains S x"
    then obtain y where "y \<in> set S" and "stab_eq y x"
      by (auto simp: set_contains_def list_ex_iff)
    with Cons.prems(2) have "y = x" by simp
    with \<open>y \<in> set S\<close> Cons.prems(1) show False by simp
  qed
  then have "set_add x S = S @ [x]" by (simp add: set_add_def)
  moreover have "fold set_add T (S @ [x]) = (S @ [x]) @ T"
    using Cons.prems by (intro Cons.IH) simp_all
  ultimately show ?case by simp
qed

lemma no_subsets_eq_free:
  "no_subsets G \<Longrightarrow> distinct G \<and> (\<forall>g \<in> set G. \<forall>h \<in> set G. stab_eq g h \<longrightarrow> g = h)"
  unfolding no_subsets_def by (blast dest: stab_eq_subset)

lemma set_union_update_fresh:
  assumes ord: "order_ok ord" and "no_subsets (S @ T)"
  shows "set_union_update ord S T = S @ ord T"
proof -
  have m: "mset (S @ ord T) = mset (S @ T)"
    using ord by (simp add: order_ok_def)
  from no_subsets_mset [OF m [symmetric] assms(2)]
  have "no_subsets (S @ ord T)" .
  then show ?thesis
    unfolding set_union_update_def
    using no_subsets_eq_free [of "S @ ord T"] by (intro fold_set_add_fresh) blast+
qed

lemma mset_filter_cong: "mset G = mset L \<Longrightarrow> mset (filter P G) = mset (filter P L)"
  by simp

lemma adjust_stabilizers_none_mset:
  assumes ord: "order_ok ord" and mm: "measurement_of m = Inr mm"
    and G: "mset G = mset L"
    and none: "filter (\<lambda>stab. \<not> commutes_with stab mm \<and> \<not> stab_eq stab m) L = []"
  shows "adjust_stabilizers ord c [m] G = Some (Inr G)"
proof -
  from G have "set G = set L" by (rule mset_eq_setD)
  with none have "\<forall>g \<in> set G. commutes_with g mm \<or> stab_eq g m"
    by (auto simp: filter_empty_conv)
  with ord mm show ?thesis by (rule adjust_stabilizers_none)
qed

lemma adjust_stabilizers_pair_mset:
  assumes ord: "order_ok ord" and mm: "measurement_of m = Inr mm"
    and G: "mset G = mset L"
    and two: "filter (\<lambda>stab. \<not> commutes_with stab mm \<and> \<not> stab_eq stab m) L = [a, b]"
    and refl: "stab_eq a a" "stab_eq b b"
    and scan: "scan_outer c [a, b] = Inr (Some (a, b))" "scan_outer c [b, a] = Inr (Some (b, a))"
    and nt: "\<not> is_trivial (multiply a b)" "\<not> is_trivial (multiply b a)"
    and cm: "commutes_with (multiply a b) mm" "commutes_with (multiply b a) mm"
    and L1: "set_add (multiply a b) (set_discard b (set_discard a L)) = L1"
    and L2: "set_add (multiply b a) (set_discard a (set_discard b L)) = L2"
  shows "\<exists>G'. adjust_stabilizers ord c [m] G = Some (Inr G') \<and>
     (mset G' = mset L1 \<or> mset G' = mset L2)"
proof -
  have "mset (filter (\<lambda>stab. \<not> commutes_with stab mm \<and> \<not> stab_eq stab m) G) = mset [a, b]"
    using mset_filter_cong [OF G] two by metis
  from adjust_stabilizers_pair [OF ord mm this refl scan nt cm]
  show ?thesis
  proof
    assume "adjust_stabilizers ord c [m] G
       = Some (Inr (set_add (multiply a b) (set_discard b (set_discard a G))))"
    moreover have "mset (set_add (multiply a b) (set_discard b (set_discard a G))) = mset L1"
      unfolding L1 [symmetric]
      by (intro mset_set_add mset_set_discard G)
    ultimately show ?thesis by blast
  next
    assume "adjust_stabilizers ord c [m] G
       = Some (Inr (set_add (multiply b a) (set_discard a (set_discard b G))))"
    moreover have "mset (set_add (multiply b a) (set_discard a (set_discard b G))) = mset L2"
      unfolding L2 [symmetric]
      by (intro mset_set_add mset_set_discard G)
    ultimately show ?thesis by blast
  qed
qed

section \<open>The two-step scenario under an arbitrary order of iteration\<close>

lemma scenario_adjust:
  assumes ord: "order_ok ord"
    and G: "mset G = mset [[(1, Z), (2, Z)], [(3, Z), (4, Z)], [(6, Z), (7, Z)], [(8, Z), (9, Z)],
      [(1, X), (6, X)], [(2, X), (7, X)], [(3, X), (8, X)], [(4, X), (9, X)]]"
  shows "\<exists>G' p q.
     adjust_stabilizers ord (init 4 4)
       [[(1, X), (6, X)], [(2, X), (7, X)], [(3, X), (8, X)], [(4, X), (9, X)]] G = Some (Inr G') \<and>
     mset G' = mset [[(1, X), (6, X)], [(2, X), (7, X)], [(3, X), (8, X)], [(4, X), (9, X)], p, q] \<and>
     (p = [(1, Z), (2, Z), (6, Z), (7, Z)] \<or> p = [(6, Z), (7, Z), (1, Z), (2, Z)]) \<and>
     (q = [(3, Z), (4, Z), (8, Z), (9, Z)] \<or> q = [(8, Z), (9, Z), (3, Z), (4, Z)])"
proof -
  let ?a1 = "[(1, Z), (2, Z)] :: stabilizer" and ?a2 = "[(3, Z), (4, Z)] :: stabilizer"
  let ?a3 = "[(6, Z), (7, Z)] :: stabilizer" and ?a4 = "[(8, Z), (9, Z)] :: stabilizer"
  let ?m1 = "[(1, X), (6, X)] :: stabilizer" and ?m2 = "[(2, X), (7, X)] :: stabilizer"
  let ?m3 = "[(3, X), (8, X)] :: stabilizer" and ?m4 = "[(4, X), (9, X)] :: stabilizer"
  let ?P1 = "[(1, Z), (2, Z), (6, Z), (7, Z)] :: stabilizer"
  let ?P2 = "[(6, Z), (7, Z), (1, Z), (2, Z)] :: stabilizer"
  let ?Q1 = "[(3, Z), (4, Z), (8, Z), (9, Z)] :: stabilizer"
  let ?Q2 = "[(8, Z), (9, Z), (3, Z), (4, Z)] :: stabilizer"
  let ?c = "init 4 4"
  let ?anti = "\<lambda>m mm. \<lambda>stab. \<not> commutes_with stab mm \<and> \<not> stab_eq stab m"
  have mm: "measurement_of ?m1 = Inr ([1, 6], X)" "measurement_of ?m2 = Inr ([2, 7], X)"
    "measurement_of ?m3 = Inr ([3, 8], X)" "measurement_of ?m4 = Inr ([4, 9], X)"
    by code_simp+
  \<comment> \<open>the measurement on (1, 6) combines Z1 Z2 and Z6 Z7\<close>
  have "\<exists>G1. adjust_stabilizers ord ?c [?m1] G = Some (Inr G1) \<and>
     (mset G1 = mset [?a2, ?a4, ?m1, ?m2, ?m3, ?m4, ?P1] \<or>
      mset G1 = mset [?a2, ?a4, ?m1, ?m2, ?m3, ?m4, ?P2])"
  proof (rule adjust_stabilizers_pair_mset [OF ord mm(1) G, where a = ?a1 and b = ?a3])
    show "filter (?anti ?m1 ([1, 6], X)) [?a1, ?a2, ?a3, ?a4, ?m1, ?m2, ?m3, ?m4] = [?a1, ?a3]"
      by code_simp
    show "stab_eq ?a1 ?a1" "stab_eq ?a3 ?a3" by code_simp+
    show "scan_outer ?c [?a1, ?a3] = Inr (Some (?a1, ?a3))"
      "scan_outer ?c [?a3, ?a1] = Inr (Some (?a3, ?a1))" by code_simp+
    show "\<not> is_trivial (multiply ?a1 ?a3)" "\<not> is_trivial (multiply ?a3 ?a1)" by code_simp+
    show "commutes_with (multiply ?a1 ?a3) ([1, 6], X)"
      "commutes_with (multiply ?a3 ?a1) ([1, 6], X)" by code_simp+
    show "set_add (multiply ?a1 ?a3)
        (set_discard ?a3 (set_discard ?a1 [?a1, ?a2, ?a3, ?a4, ?m1, ?m2, ?m3, ?m4]))
      = [?a2, ?a4, ?m1, ?m2, ?m3, ?m4, ?P1]" by code_simp
    show "set_add (multiply ?a3 ?a1)
        (set_discard ?a1 (set_discard ?a3 [?a1, ?a2, ?a3, ?a4, ?m1, ?m2, ?m3, ?m4]))
      = [?a2, ?a4, ?m1, ?m2, ?m3, ?m4, ?P2]" by code_simp
  qed
  then obtain G1 p where s1: "adjust_stabilizers ord ?c [?m1] G = Some (Inr G1)"
    and G1: "mset G1 = mset [?a2, ?a4, ?m1, ?m2, ?m3, ?m4, p]"
    and p: "p = ?P1 \<or> p = ?P2"
    by blast
  \<comment> \<open>nothing anti-commutes with the measurement on (2, 7)\<close>
  have n2: "filter (?anti ?m2 ([2, 7], X)) [?a2, ?a4, ?m1, ?m2, ?m3, ?m4, p] = []"
    using p
  proof
    assume e: "p = ?P1" show ?thesis unfolding e by code_simp
  next
    assume e: "p = ?P2" show ?thesis unfolding e by code_simp
  qed
  have s2: "adjust_stabilizers ord ?c [?m2] G1 = Some (Inr G1)"
    using ord mm(2) G1 n2 by (rule adjust_stabilizers_none_mset)
  \<comment> \<open>the measurement on (3, 8) combines Z3 Z4 and Z8 Z9\<close>
  have "\<exists>G3. adjust_stabilizers ord ?c [?m3] G1 = Some (Inr G3) \<and>
     (mset G3 = mset [?m1, ?m2, ?m3, ?m4, p, ?Q1] \<or>
      mset G3 = mset [?m1, ?m2, ?m3, ?m4, p, ?Q2])"
  proof (rule adjust_stabilizers_pair_mset [OF ord mm(3) G1, where a = ?a2 and b = ?a4])
    show "filter (?anti ?m3 ([3, 8], X)) [?a2, ?a4, ?m1, ?m2, ?m3, ?m4, p] = [?a2, ?a4]"
      using p
    proof
      assume e: "p = ?P1" show ?thesis unfolding e by code_simp
    next
      assume e: "p = ?P2" show ?thesis unfolding e by code_simp
    qed
    show "stab_eq ?a2 ?a2" "stab_eq ?a4 ?a4" by code_simp+
    show "scan_outer ?c [?a2, ?a4] = Inr (Some (?a2, ?a4))"
      "scan_outer ?c [?a4, ?a2] = Inr (Some (?a4, ?a2))" by code_simp+
    show "\<not> is_trivial (multiply ?a2 ?a4)" "\<not> is_trivial (multiply ?a4 ?a2)" by code_simp+
    show "commutes_with (multiply ?a2 ?a4) ([3, 8], X)"
      "commutes_with (multiply ?a4 ?a2) ([3, 8], X)" by code_simp+
    show "set_add (multiply ?a2 ?a4)
        (set_discard ?a4 (set_discard ?a2 [?a2, ?a4, ?m1, ?m2, ?m3, ?m4, p]))
      = [?m1, ?m2, ?m3, ?m4, p, ?Q1]"
      using p
    proof
      assume e: "p = ?P1" show ?thesis unfolding e by code_simp
    next
      assume e: "p = ?P2" show ?thesis unfolding e by code_simp
    qed
    show "set_add (multiply ?a4 ?a2)
        (set_discard ?a2 (set_discard ?a4 [?a2, ?a4, ?m1, ?m2, ?m3, ?m4, p]))
      = [?m1, ?m2, ?m3, ?m4, p, ?Q2]"
      using p
    proof
      assume e: "p = ?P1" show ?thesis unfolding e by code_simp
    next
      assume e: "p = ?P2" show ?thesis unfolding e by code_simp
    qed
  qed
  then obtain G3 q where s3: "adjust_stabilizers ord ?c [?m3] G1 = Some (Inr G3)"
    and G3: "mset G3 = mset [?m1, ?m2, ?m3, ?m4, p, q]"
    and q: "q = ?Q1 \<or> q = ?Q2"
    by blast
  \<comment> \<open>nothing anti-commutes with the measurement on (4, 9)\<close>
  have n4: "filter (?anti ?m4 ([4, 9], X)) [?m1, ?m2, ?m3, ?m4, p, q] = []"
    using p q
  proof (elim disjE)
    assume e: "p = ?P1" "q = ?Q1" show ?thesis unfolding e by code_simp
  next
    assume e: "p = ?P1" "q = ?Q2" show ?thesis unfolding e by code_simp
  next
    assume e: "p = ?P2" "q = ?Q1" show ?thesis unfolding e by code_simp
  next
    assume e: "p = ?P2" "q = ?Q2" show ?thesis unfolding e by code_simp
  qed
  have s4: "adjust_stabilizers ord ?c [?m4] G3 = Some (Inr G3)"
    using ord mm(4) G3 n4 by (rule adjust_stabilizers_none_mset)
  have s34: "adjust_stabilizers ord ?c [?m3, ?m4] G1 = Some (Inr G3)"
    by (subst adjust_stabilizers_Cons) (simp add: s3 s4 del: adjust_stabilizers.simps)
  have s234: "adjust_stabilizers ord ?c [?m2, ?m3, ?m4] G1 = Some (Inr G3)"
    by (subst adjust_stabilizers_Cons) (simp add: s2 s34 del: adjust_stabilizers.simps)
  have "adjust_stabilizers ord ?c [?m1, ?m2, ?m3, ?m4] G = Some (Inr G3)"
    by (subst adjust_stabilizers_Cons) (simp add: s1 s234 del: adjust_stabilizers.simps)
  with G3 p q show ?thesis by blast
qed

lemma scenario_second_step:
  assumes ord: "order_ok ord" and g: "same_grid c (init 4 4)"
    and gens: "stabilizer_generators c
      = [[(1, Z), (2, Z)], [(3, Z), (4, Z)], [(6, Z), (7, Z)], [(8, Z), (9, Z)]]"
    and t: "time_step c = 1"
  shows "\<exists>c' p q. run_time_step ord c [(1, 6), (2, 7), (3, 8), (4, 9)] = Some (Inr c') \<and>
     mset (stabilizer_generators c')
       = mset [[(1, X), (6, X)], [(2, X), (7, X)], [(3, X), (8, X)], [(4, X), (9, X)], p, q] \<and>
     stab_eq p [(1, Z), (2, Z), (6, Z), (7, Z)] \<and> stab_eq q [(3, Z), (4, Z), (8, Z), (9, Z)]"
proof -
  let ?a1 = "[(1, Z), (2, Z)] :: stabilizer" and ?a2 = "[(3, Z), (4, Z)] :: stabilizer"
  let ?a3 = "[(6, Z), (7, Z)] :: stabilizer" and ?a4 = "[(8, Z), (9, Z)] :: stabilizer"
  let ?m1 = "[(1, X), (6, X)] :: stabilizer" and ?m2 = "[(2, X), (7, X)] :: stabilizer"
  let ?m3 = "[(3, X), (8, X)] :: stabilizer" and ?m4 = "[(4, X), (9, X)] :: stabilizer"
  let ?P1 = "[(1, Z), (2, Z), (6, Z), (7, Z)] :: stabilizer"
  let ?P2 = "[(6, Z), (7, Z), (1, Z), (2, Z)] :: stabilizer"
  let ?Q1 = "[(3, Z), (4, Z), (8, Z), (9, Z)] :: stabilizer"
  let ?Q2 = "[(8, Z), (9, Z), (3, Z), (4, Z)] :: stabilizer"
  let ?batch = "[(1, 6), (2, 7), (3, 8), (4, 9)] :: (int \<times> int) list"
  let ?old = "[?a1, ?a2, ?a3, ?a4]" and ?new = "[?m1, ?m2, ?m3, ?m4]"
  define c1 where "c1 = c\<lparr>time_step := time_step c + 1\<rparr>"
  have g1: "same_grid c1 (init 4 4)"
    using g by (simp add: same_grid_def c1_def)
  have v: "filter (\<lambda>p. fst (is_valid_measurement c1 p)) ?batch = ?batch"
    unfolding same_grid_is_valid_measurement [OF g1] by code_simp
  have b: "build_stabilizers c1 ?batch ([], []) = Inr (?new, ?new)"
    unfolding same_grid_build_stabilizers [OF g1] by code_simp
  have sg: "stabilizer_generators c1 = ?old" by (simp add: c1_def gens)
  have "no_subsets (?old @ ?new)" by code_simp
  with ord have u: "set_union_update ord (stabilizer_generators c1) ?new = ?old @ ord ?new"
    unfolding sg by (rule set_union_update_fresh)
  have "mset (?old @ ord ?new) = mset (?old @ ?new)"
    using ord by (simp add: order_ok_def)
  then have "mset (?old @ ord ?new) = mset [?a1, ?a2, ?a3, ?a4, ?m1, ?m2, ?m3, ?m4]"
    by simp
  from scenario_adjust [OF ord this]
  obtain G' p q where adj: "adjust_stabilizers ord c1 ?new (?old @ ord ?new) = Some (Inr G')"
    and G': "mset G' = mset [?m1, ?m2, ?m3, ?m4, p, q]"
    and p: "p = ?P1 \<or> p = ?P2" and q: "q = ?Q1 \<or> q = ?Q2"
    unfolding same_grid_adjust_stabilizers [OF g1] by blast
  have ns: "no_subsets [?m1, ?m2, ?m3, ?m4, p, q]"
    using p q
  proof (elim disjE)
    assume e: "p = ?P1" "q = ?Q1" show ?thesis unfolding e by code_simp
  next
    assume e: "p = ?P1" "q = ?Q2" show ?thesis unfolding e by code_simp
  next
    assume e: "p = ?P2" "q = ?Q1" show ?thesis unfolding e by code_simp
  next
    assume e: "p = ?P2" "q = ?Q2" show ?thesis unfolding e by code_simp
  qed
  have ne: "\<forall>g \<in> set [?m1, ?m2, ?m3, ?m4, p, q]. g \<noteq> []"
    using p q by auto
  have eq: "stab_eq p ?P1" "stab_eq q ?Q1"
  proof -
    have "stab_eq ?P1 ?P1" "stab_eq ?P2 ?P1" "stab_eq ?Q1 ?Q1" "stab_eq ?Q2 ?Q1"
      by code_simp+
    with p q show "stab_eq p ?P1" "stab_eq q ?Q1" by auto
  qed
  have "no_subsets G'"
    using no_subsets_mset [OF G' [symmetric] ns] .
  moreover have "\<forall>g \<in> set G'. g \<noteq> []"
    using ne mset_eq_setD [OF G'] by simp
  ultimately have "simplify_stabilizers ord G' = sort_key length (ord G')"
    using ord by (intro simplify_no_subsets)
  then have s: "mset (simplify_stabilizers ord G') = mset [?m1, ?m2, ?m3, ?m4, p, q]"
    using ord G' by (simp add: order_ok_def)
  have t1: "time_step c1 \<noteq> 1" by (simp add: c1_def t)
  have up: "update_stabilizers ord c1 ?batch
      = Some (Inr (c1\<lparr>stabilizer_generators := simplify_stabilizers ord G'\<rparr>))"
    unfolding update_stabilizers_def b using t1
    by (simp add: u adj del: adjust_stabilizers.simps append.simps)
  have "run_time_step ord c ?batch
      = Some (Inr (c1\<lparr>stabilizer_generators := simplify_stabilizers ord G',
           current_measurements := ?batch,
           measurements_history := measurements_history c1 @ [?batch],
           selected_edges := []\<rparr>))"
    unfolding run_time_step_def Let_def c1_def [symmetric] v up by simp
  with s eq show ?thesis by auto
qed

text \<open>
  C1, amended. On the lattice of 5 by 5 vertices, whatever the order in which the sets
  are iterated: step 1 with the pairs \<open>(1,2), (3,4), (6,7), (8,9)\<close> yields exactly the
  generators \<open>Z{1,2}\<close>, \<open>Z{3,4}\<close>, \<open>Z{6,7}\<close>, \<open>Z{8,9}\<close>; step 2 with the pairs
  \<open>(1,6), (2,7), (3,8), (4,9)\<close> then yields exactly six generators: the four new ones
  \<open>X{1,6}\<close>, \<open>X{2,7}\<close>, \<open>X{3,8}\<close>, \<open>X{4,9}\<close>, and two more, equal to \<open>Z{1,2,6,7}\<close> and to
  \<open>Z{3,4,8,9}\<close>, the products of the generators of step 1 that the measurements on
  \<open>(1,6)\<close> and on \<open>(3,8)\<close> anti-commute with.
\<close>

theorem two_step_scenario:
  assumes "order_ok ord"
  shows "(\<exists>c1. run_schedule ord (init 4 4) [[(1, 2), (3, 4), (6, 7), (8, 9)]] = Some (Inr c1) \<and>
       stabilizer_generators c1
         = [[(1, Z), (2, Z)], [(3, Z), (4, Z)], [(6, Z), (7, Z)], [(8, Z), (9, Z)]]) \<and>
     (\<exists>c2 p q.
       run_schedule ord (init 4 4)
         [[(1, 2), (3, 4), (6, 7), (8, 9)], [(1, 6), (2, 7), (3, 8), (4, 9)]] = Some (Inr c2) \<and>
       mset (stabilizer_generators c2)
         = mset [[(1, X), (6, X)], [(2, X), (7, X)], [(3, X), (8, X)], [(4, X), (9, X)], p, q] \<and>
       stab_eq p [(1, Z), (2, Z), (6, Z), (7, Z)] \<and> stab_eq q [(3, Z), (4, Z), (8, Z), (9, Z)] \<and>
       length (stabilizer_generators c2) = 6)"
proof -
  have t0: "time_step (init 4 4) = 0" by (simp add: init_def)
  have "run_time_step storage_order (init 4 4) [(1, 2), (3, 4), (6, 7), (8, 9)]
      = Some (Inr \<lparr>rows = 4, cols = 4,
          stabilizer_generators = [[(1, Z), (2, Z)], [(3, Z), (4, Z)], [(6, Z), (7, Z)], [(8, Z), (9, Z)]],
          time_step = 1, prev_measurements = [],
          current_measurements = [(1, 2), (3, 4), (6, 7), (8, 9)],
          measurements_history = [[(1, 2), (3, 4), (6, 7), (8, 9)]], selected_edges = []\<rparr>)"
    by code_simp
  then obtain d1 where s1: "run_time_step ord (init 4 4) [(1, 2), (3, 4), (6, 7), (8, 9)] = Some (Inr d1)"
    and d1: "same_grid d1 (init 4 4)"
      "stabilizer_generators d1
        = [[(1, Z), (2, Z)], [(3, Z), (4, Z)], [(6, Z), (7, Z)], [(8, Z), (9, Z)]]"
      "time_step d1 = 1"
    unfolding first_step_any_order [OF t0, of ord] by (simp add: same_grid_def init_def)
  from scenario_second_step [OF assms d1]
  obtain c2 p q where s2: "run_time_step ord d1 [(1, 6), (2, 7), (3, 8), (4, 9)] = Some (Inr c2)"
    and m: "mset (stabilizer_generators c2)
       = mset [[(1, X), (6, X)], [(2, X), (7, X)], [(3, X), (8, X)], [(4, X), (9, X)], p, q]"
    and pq: "stab_eq p [(1, Z), (2, Z), (6, Z), (7, Z)]" "stab_eq q [(3, Z), (4, Z), (8, Z), (9, Z)]"
    by blast
  from m have "length (stabilizer_generators c2)
      = length [[(1, X), (6, X)], [(2, X), (7, X)], [(3, X), (8, X)], [(4, X), (9, X)], p, q]"
    by (rule mset_eq_length)
  then have "length (stabilizer_generators c2) = 6" by simp
  with s1 s2 d1(2) m pq show ?thesis
    by (intro conjI exI [of _ d1] exI [of _ c2] exI [of _ p] exI [of _ q]) simp_all
qed

theorem two_step_scenario_witness:
  "order_ok storage_order \<and>
   map_option (map_sum id stabilizer_generators)
     (run_schedule storage_order (init 4 4)
        [[(1, 2), (3, 4), (6, 7), (8, 9)], [(1, 6), (2, 7), (3, 8), (4, 9)]])
   = Some (Inr [[(1, X), (6, X)], [(2, X), (7, X)], [(3, X), (8, X)], [(4, X), (9, X)],
        [(1, Z), (2, Z), (6, Z), (7, Z)], [(3, Z), (4, Z), (8, Z), (9, Z)]]) \<and>
   (\<exists>c1. run_schedule storage_order (init 4 4) [[(1, 2), (3, 4), (6, 7), (8, 9)]] = Some (Inr c1) \<and>
       stabilizer_generators c1
         = [[(1, Z), (2, Z)], [(3, Z), (4, Z)], [(6, Z), (7, Z)], [(8, Z), (9, Z)]])"
proof -
  have e: "map_option (map_sum id stabilizer_generators)
     (run_schedule storage_order (init 4 4)
        [[(1, 2), (3, 4), (6, 7), (8, 9)], [(1, 6), (2, 7), (3, 8), (4, 9)]])
   = Some (Inr [[(1, X), (6, X)], [(2, X), (7, X)], [(3, X), (8, X)], [(4, X), (9, X)],
        [(1, Z), (2, Z), (6, Z), (7, Z)], [(3, Z), (4, Z), (8, Z), (9, Z)]])"
    by code_simp
  from two_step_scenario [OF order_ok_storage]
  have "\<exists>c1. run_schedule storage_order (init 4 4) [[(1, 2), (3, 4), (6, 7), (8, 9)]] = Some (Inr c1) \<and>
       stabilizer_generators c1
         = [[(1, Z), (2, Z)], [(3, Z), (4, Z)], [(6, Z), (7, Z)], [(8, Z), (9, Z)]]"
    by (rule conjunct1)
  with e order_ok_storage show ?thesis by (intro conjI)
qed

section \<open>The simplification under an arbitrary order of iteration\<close>

lemma sort_key_distinct_keys:
  assumes m: "mset xs = mset ys" and s: "sorted (map f ys)" and d: "distinct (map f ys)"
  shows "sort_key f xs = ys"
proof (rule properties_for_sort_key [OF m [symmetric] _ s])
  fix k assume k: "k \<in> set ys"
  have ys: "filter (\<lambda>x. f k = f x) ys = [k]"
    using d k
  proof (induction ys)
    case Nil
    then show ?case by simp
  next
    case (Cons y ys)
    then show ?case by (auto simp: filter_empty_conv image_iff)
  qed
  have "mset (filter (\<lambda>x. f k = f x) xs) = mset (filter (\<lambda>x. f k = f x) ys)"
    using m by simp
  then have "filter (\<lambda>x. f k = f x) xs = [k]"
    unfolding ys by (rule mset_eq_single)
  with ys show "filter (\<lambda>x. f k = f x) ys = filter (\<lambda>x. f k = f x) xs" by simp
qed

lemma order_ok_pair: "order_ok ord \<Longrightarrow> ord [x, y] = [x, y] \<or> ord [x, y] = [y, x]"
  using mset_eq_pair [of "ord [x, y]" x y] by (simp add: order_ok_def)

lemma simplify_step_Nil: "order_ok ord \<Longrightarrow> \<not> is_trivial s \<Longrightarrow> simplify_step ord s [] = [s]"
  by (simp add: simplify_step_def order_ok_Nil set_add_def set_contains_def)

lemma simplify_step_single:
  "order_ok ord \<Longrightarrow> reduce_by x s = r \<Longrightarrow> \<not> is_trivial r \<Longrightarrow>
   simplify_step ord s [x] = set_add r [x]"
  by (simp add: simplify_step_def order_ok_single)

lemma simplify_step_pair:
  assumes "order_ok ord" and "reduce_by y (reduce_by x s) = r" and "reduce_by x (reduce_by y s) = r"
    and "\<not> is_trivial r"
  shows "simplify_step ord s [x, y] = set_add r [x, y]"
  using order_ok_pair [OF assms(1), of x y] assms(2-4)
  by (auto simp: simplify_step_def)

text \<open>
  The generator set of the counterexample to C3 has the weights 2, 4 and 5, and so has
  what the first pass makes of it (2, 4 and 3): the sort puts the generators in one
  order, whatever order the set is iterated in, and the two passes give what they give
  with the order of insertion.
\<close>

lemma simplify_twice_any_order:
  assumes ord: "order_ok ord"
  shows "simplify_stabilizers ord
       [[(1, Z), (2, Z)], [(3, Z), (4, Z), (5, Z), (6, Z)], [(1, Z), (2, Z), (3, Z), (4, Z), (5, Z)]]
       = [[(1, Z), (2, Z)], [(3, Z), (4, Z), (5, Z), (6, Z)], [(3, Z), (4, Z), (5, Z)]]"
    and "simplify_stabilizers ord
       [[(1, Z), (2, Z)], [(3, Z), (4, Z), (5, Z), (6, Z)], [(3, Z), (4, Z), (5, Z)]]
       = [[(1, Z), (2, Z)], [(3, Z), (4, Z), (5, Z)], [(6, Z)]]"
proof -
  let ?a = "[(1, Z), (2, Z)] :: stabilizer"
  let ?c = "[(3, Z), (4, Z), (5, Z), (6, Z)] :: stabilizer"
  let ?b = "[(1, Z), (2, Z), (3, Z), (4, Z), (5, Z)] :: stabilizer"
  let ?b' = "[(3, Z), (4, Z), (5, Z)] :: stabilizer"
  let ?c' = "[(6, Z)] :: stabilizer"
  have nt: "\<not> is_trivial ?a" "\<not> is_trivial ?c" "\<not> is_trivial ?b'" "\<not> is_trivial ?c'"
    by (simp_all add: is_trivial_def)
  have "mset (ord [?a, ?c, ?b]) = mset [?a, ?c, ?b]"
    using ord by (simp add: order_ok_def)
  then have s1: "sort_key length (ord [?a, ?c, ?b]) = [?a, ?c, ?b]"
    by (rule sort_key_distinct_keys) simp_all
  have a: "simplify_step ord ?a [] = [?a]"
    using ord nt(1) by (rule simplify_step_Nil)
  have "simplify_step ord ?c [?a] = set_add ?c [?a]"
    using ord _ nt(2) by (rule simplify_step_single) code_simp
  also have "\<dots> = [?a, ?c]" by code_simp
  finally have c: "simplify_step ord ?c [?a] = [?a, ?c]" .
  have "simplify_step ord ?b [?a, ?c] = set_add ?b' [?a, ?c]"
    using ord _ _ nt(3) by (rule simplify_step_pair) code_simp+
  also have "\<dots> = [?a, ?c, ?b']" by code_simp
  finally have b: "simplify_step ord ?b [?a, ?c] = [?a, ?c, ?b']" .
  show "simplify_stabilizers ord [?a, ?c, ?b] = [?a, ?c, ?b']"
    unfolding simplify_stabilizers_def s1 by (simp add: a c b)
  have "mset (ord [?a, ?c, ?b']) = mset [?a, ?b', ?c]"
    using ord by (simp add: order_ok_def)
  then have s2: "sort_key length (ord [?a, ?c, ?b']) = [?a, ?b', ?c]"
    by (rule sort_key_distinct_keys) simp_all
  have "simplify_step ord ?b' [?a] = set_add ?b' [?a]"
    using ord _ nt(3) by (rule simplify_step_single) code_simp
  also have "\<dots> = [?a, ?b']" by code_simp
  finally have b2: "simplify_step ord ?b' [?a] = [?a, ?b']" .
  have "simplify_step ord ?c [?a, ?b'] = set_add ?c' [?a, ?b']"
    using ord _ _ nt(4) by (rule simplify_step_pair) code_simp+
  also have "\<dots> = [?a, ?b', ?c']" by code_simp
  finally have c2: "simplify_step ord ?c [?a, ?b'] = [?a, ?b', ?c']" .
  show "simplify_stabilizers ord [?a, ?c, ?b'] = [?a, ?b', ?c']"
    unfolding simplify_stabilizers_def s2 by (simp add: a b2 c2)
qed

end
